theory Spec2Isabelle
  imports Main "HOL-Library.Word" "HOL-Library.Char_ord" "HOL-Library.List_Lexorder"
begin

unbundle bit_operations_syntax

section \<open>Python strings\<close>

text \<open>
  A Python \<^verbatim>\<open>str\<close> is a sequence of Unicode code points, and \<^verbatim>\<open>len\<close>, slicing and
  \<^verbatim>\<open>rfind\<close> count code points. A text is therefore a list of code points (natural
  numbers); \<open>lit\<close> writes an ASCII literal of the source.
\<close>

type_synonym pystr = "nat list"

definition lit :: "string \<Rightarrow> pystr" where
  "lit s = map of_char s"

text \<open>
  The characters \<^verbatim>\<open>str.strip()\<close> removes (those for which \<^verbatim>\<open>str.isspace\<close> holds).
\<close>

definition is_space :: "nat \<Rightarrow> bool" where
  "is_space c \<longleftrightarrow>
     (9 \<le> c \<and> c \<le> 13) \<or> (28 \<le> c \<and> c \<le> 32) \<or> c = 133 \<or> c = 160 \<or> c = 5760 \<or>
     (8192 \<le> c \<and> c \<le> 8202) \<or> c = 8232 \<or> c = 8233 \<or> c = 8239 \<or> c = 8287 \<or> c = 12288"

definition strip :: "pystr \<Rightarrow> pystr" where
  "strip s = rev (dropWhile is_space (rev (dropWhile is_space s)))"

text \<open>
  Slice bounds: a negative bound counts from the end, and every bound is clamped to
  \<open>0 .. len\<close>. \<^verbatim>\<open>s[i:j]\<close> is empty when the clamped \<open>j\<close> is not above the clamped \<open>i\<close>.
\<close>

definition slice_index :: "nat \<Rightarrow> int \<Rightarrow> nat" where
  "slice_index n i = (if i < 0 then nat (int n + i) else min n (nat i))"

definition slice :: "'a list \<Rightarrow> int \<Rightarrow> int \<Rightarrow> 'a list" where
  "slice xs i j =
     (let lo = slice_index (length xs) i; hi = slice_index (length xs) j
      in take (hi - lo) (drop lo xs))"

text \<open>
  \<^verbatim>\<open>s.rfind(sub, start, end)\<close>: the highest index \<open>i\<close> with \<open>sub\<close> lying wholly inside
  \<^verbatim>\<open>s[start:end]\<close>, or \<open>-1\<close>. The bounds are adjusted as slice bounds are, except that a
  \<open>start\<close> beyond the end is not clamped (the search is then empty).
\<close>

definition rfind_start :: "nat \<Rightarrow> int \<Rightarrow> nat" where
  "rfind_start n i = (if i < 0 then nat (int n + i) else nat i)"

definition rfind :: "'a list \<Rightarrow> 'a list \<Rightarrow> int \<Rightarrow> int \<Rightarrow> int" where
  "rfind s sub start stop =
     (let lo = rfind_start (length s) start;
          hi = slice_index (length s) stop;
          m = length sub
      in if hi < lo + m then - 1
         else (case List.find (\<lambda>i. take m (drop i s) = sub) (rev [lo ..< Suc (hi - m)]) of
                 None \<Rightarrow> - 1
               | Some i \<Rightarrow> int i))"

section \<open>The chunker\<close>

text \<open>
  The boundary search of both \<^verbatim>\<open>chunk_text\<close> methods is a \<^verbatim>\<open>for punct in [...]\<close> loop
  that takes the first delimiter of the list found in the window and breaks. The window
  bounds are computed from the tentative end, which the loop does not change before it
  breaks, so they are the same for every delimiter.
\<close>

fun snap_to :: "pystr \<Rightarrow> int \<Rightarrow> int \<Rightarrow> int \<Rightarrow> pystr list \<Rightarrow> int" where
  "snap_to text lo hi e [] = e"
| "snap_to text lo hi e (punct # puncts) =
     (let punct_pos = rfind text punct lo hi
      in if punct_pos \<noteq> - 1 then punct_pos + int (length punct)
         else snap_to text lo hi e puncts)"

text \<open>
  HTML pipeline (\<^verbatim>\<open>vectorize.py\<close>): the window is
  \<^verbatim>\<open>text.rfind(punct, end, min(end + 150, text_length))\<close>. The width is a parameter
  here, and \<open>snap_html\<close> is the source's instance.
\<close>

definition snap_forward :: "int \<Rightarrow> pystr \<Rightarrow> int \<Rightarrow> int" where
  "snap_forward window text e =
     snap_to text e (min (e + window) (int (length text))) e
       [lit ''. '', lit ''! '', lit ''? '', [10, 10]]"

definition snap_html :: "pystr \<Rightarrow> int \<Rightarrow> int" where
  "snap_html = snap_forward 150"

text \<open>
  PDF pipeline: \<^verbatim>\<open>text.rfind(punct, end - 200, end + 200)\<close> over
  \<^verbatim>\<open>['. ', '.\n', '! ', '? ']\<close>.
\<close>

definition snap_pdf :: "pystr \<Rightarrow> int \<Rightarrow> int" where
  "snap_pdf text e =
     snap_to text (e - 200) (e + 200) e [lit ''. '', [46, 10], lit ''! '', lit ''? '']"

text \<open>
  One pass of the \<^verbatim>\<open>while\<close> body: the end of the window after the boundary search, the
  chunk cut from it, and the next value of \<^verbatim>\<open>start\<close>.
\<close>

definition window_end :: "(pystr \<Rightarrow> int \<Rightarrow> int) \<Rightarrow> pystr \<Rightarrow> int \<Rightarrow> int \<Rightarrow> int" where
  "window_end snap text chunk_size start =
     (let e = start + chunk_size
      in if e < int (length text) then snap text e else e)"

definition next_start :: "pystr \<Rightarrow> int \<Rightarrow> int \<Rightarrow> int" where
  "next_start text overlap e = (if e < int (length text) then e - overlap else int (length text))"

text \<open>
  The \<^verbatim>\<open>while start < text_length\<close> loop, shared by the two pipelines up to the boundary
  search \<open>snap\<close> and the minimum length \<open>min_len\<close> (50 and 100). Nothing in the source
  bounds the number of passes for arbitrary \<open>chunk_size\<close> and \<open>overlap\<close>, so the loop is a
  partial function: \<open>None\<close> is a run that never returns.
\<close>

partial_function (option) chunk_loop ::
  "(pystr \<Rightarrow> int \<Rightarrow> int) \<Rightarrow> nat \<Rightarrow> pystr \<Rightarrow> int \<Rightarrow> int \<Rightarrow> int \<Rightarrow> pystr list \<Rightarrow> pystr list option"
where
  "chunk_loop snap min_len text chunk_size overlap start chunks =
     (if start < int (length text) then
        let e = window_end snap text chunk_size start;
            chunk = strip (slice text start e)
        in chunk_loop snap min_len text chunk_size overlap (next_start text overlap e)
             (if chunk \<noteq> [] \<and> length chunk > min_len then chunks @ [chunk] else chunks)
      else Some chunks)"

declare chunk_loop.simps [code]

definition chunk_text_html :: "pystr \<Rightarrow> int \<Rightarrow> int \<Rightarrow> pystr list option" where
  "chunk_text_html text chunk_size overlap =
     (if text = [] then Some [] else chunk_loop snap_html 50 text chunk_size overlap 0 [])"

definition chunk_text_pdf :: "pystr \<Rightarrow> int \<Rightarrow> int \<Rightarrow> pystr list option" where
  "chunk_text_pdf text chunk_size overlap =
     (if text = [] then Some [] else chunk_loop snap_pdf 100 text chunk_size overlap 0 [])"

text \<open>
  The claims about spans speak of the windows \<open>[start, end)\<close> the loop cuts, which the
  source does not return. \<open>chunk_windows\<close> is the same loop with the same cursor,
  recording the window of every pass instead of its chunk; \<open>kept_chunks\<close> cuts, strips and
  filters the windows as the loop body does.
\<close>

partial_function (option) chunk_windows ::
  "(pystr \<Rightarrow> int \<Rightarrow> int) \<Rightarrow> pystr \<Rightarrow> int \<Rightarrow> int \<Rightarrow> int \<Rightarrow> (int \<times> int) list \<Rightarrow> (int \<times> int) list option"
where
  "chunk_windows snap text chunk_size overlap start ws =
     (if start < int (length text) then
        let e = window_end snap text chunk_size start
        in chunk_windows snap text chunk_size overlap (next_start text overlap e) (ws @ [(start, e)])
      else Some ws)"

declare chunk_windows.simps [code]

definition window_chunk :: "pystr \<Rightarrow> int \<times> int \<Rightarrow> pystr" where
  "window_chunk text w = strip (slice text (fst w) (snd w))"

definition keeps :: "nat \<Rightarrow> pystr \<Rightarrow> int \<times> int \<Rightarrow> bool" where
  "keeps min_len text w \<longleftrightarrow> window_chunk text w \<noteq> [] \<and> length (window_chunk text w) > min_len"

definition kept_windows :: "nat \<Rightarrow> pystr \<Rightarrow> (int \<times> int) list \<Rightarrow> (int \<times> int) list" where
  "kept_windows min_len text ws = filter (keeps min_len text) ws"

definition kept_chunks :: "nat \<Rightarrow> pystr \<Rightarrow> (int \<times> int) list \<Rightarrow> pystr list" where
  "kept_chunks min_len text ws = map (window_chunk text) (kept_windows min_len text ws)"

text \<open>
  The windows of a run from cursor \<open>start\<close>: each begins at the cursor, ends where the
  boundary search puts it, and hands \<open>next_start\<close> to the next; the run ends when the
  cursor has reached the end of the text.
\<close>

fun windows_chain ::
  "(pystr \<Rightarrow> int \<Rightarrow> int) \<Rightarrow> pystr \<Rightarrow> int \<Rightarrow> int \<Rightarrow> int \<Rightarrow> (int \<times> int) list \<Rightarrow> bool"
where
  "windows_chain snap text chunk_size overlap start [] \<longleftrightarrow> \<not> start < int (length text)"
| "windows_chain snap text chunk_size overlap start (w # ws) \<longleftrightarrow>
     start < int (length text) \<and> fst w = start \<and>
     snd w = window_end snap text chunk_size start \<and>
     windows_chain snap text chunk_size overlap (next_start text overlap (snd w)) ws"

definition c2_text :: pystr where
  "c2_text = lit ''Clause one ends here. Clause two begins and runs long enough to pass the target size threshold before hitting a period.''"

text \<open>
  A text for the coverage claim: 700 letters \<open>a\<close>, 300 spaces, 40 letters \<open>x\<close>, 960 spaces,
  1000 letters \<open>b\<close>.
\<close>

definition c4_text :: pystr where
  "c4_text = replicate 700 97 @ replicate 300 32 @ replicate 40 120 @ replicate 960 32 @ replicate 1000 98"

section \<open>Chunk identifiers\<close>

text \<open>
  \<^verbatim>\<open>str(chunk_index)\<close> inside the f-string: the decimal digits of a Python integer, with
  a minus sign for a negative one.
\<close>

fun digits :: "nat \<Rightarrow> pystr" where
  "digits n = (if n < 10 then [48 + n] else digits (n div 10) @ [48 + n mod 10])"

declare digits.simps [simp del]

definition str_int :: "int \<Rightarrow> pystr" where
  "str_int i = (if i < 0 then 45 # digits (nat (- i)) else digits (nat i))"

text \<open>
  \<^verbatim>\<open>f"{state}_{file_name}_{chunk_index}"\<close> in \<^verbatim>\<open>generate_chunk_id\<close>, and
  \<^verbatim>\<open>f"{pdf_file.name}_{chunk_idx}"\<close> in \<^verbatim>\<open>process_pdf_folder\<close>.
\<close>

definition unique_string :: "pystr \<Rightarrow> pystr \<Rightarrow> int \<Rightarrow> pystr" where
  "unique_string state file_name chunk_index =
     state @ lit ''_'' @ file_name @ lit ''_'' @ str_int chunk_index"

definition pdf_unique_string :: "pystr \<Rightarrow> int \<Rightarrow> pystr" where
  "pdf_unique_string file_name chunk_idx = file_name @ lit ''_'' @ str_int chunk_idx"

text \<open>
  \<^verbatim>\<open>.encode()\<close> is UTF-8 with strict error handling: a surrogate code point raises
  \<^verbatim>\<open>UnicodeEncodeError\<close>. Bytes are numbers below 256.
\<close>

datatype error = UnicodeEncodeError

definition utf8 :: "nat \<Rightarrow> nat list option" where
  "utf8 c =
     (if c < 128 then Some [c]
      else if c < 2048 then Some [192 + c div 64, 128 + c mod 64]
      else if c < 65536 then
        (if 55296 \<le> c \<and> c \<le> 57343 then None
         else Some [224 + c div 4096, 128 + (c div 64) mod 64, 128 + c mod 64])
      else if c < 1114112 then
        Some [240 + c div 262144, 128 + (c div 4096) mod 64, 128 + (c div 64) mod 64, 128 + c mod 64]
      else None)"

fun encode :: "pystr \<Rightarrow> nat list option" where
  "encode [] = Some []"
| "encode (c # cs) =
     (case utf8 c of
        None \<Rightarrow> None
      | Some bs \<Rightarrow> (case encode cs of None \<Rightarrow> None | Some rest \<Rightarrow> Some (bs @ rest)))"

text \<open>
  \<^verbatim>\<open>hashlib.md5\<close>, following RFC 1321: the message is padded with the byte 128, zero
  bytes up to 56 modulo 64, and its length in bits as 8 little-endian bytes; each block
  of 64 bytes is read as 16 little-endian words of 32 bits and run through 64 steps.
\<close>

type_synonym md5_state = "32 word \<times> 32 word \<times> 32 word \<times> 32 word"

fun le_bytes :: "nat \<Rightarrow> nat \<Rightarrow> nat list" where
  "le_bytes 0 n = []"
| "le_bytes (Suc k) n = (n mod 256) # le_bytes k (n div 256)"

definition md5_pad :: "nat list \<Rightarrow> nat list" where
  "md5_pad bs =
     bs @ [128] @ replicate ((119 - length bs mod 64) mod 64) 0
        @ le_bytes 8 ((8 * length bs) mod 2 ^ 64)"

definition md5_blocks :: "nat list \<Rightarrow> nat list list" where
  "md5_blocks bs = map (\<lambda>k. take 64 (drop (64 * k) bs)) [0 ..< length bs div 64]"

definition word_of_le :: "nat list \<Rightarrow> 32 word" where
  "word_of_le bs = of_nat (foldr (\<lambda>b n. b + 256 * n) bs 0)"

definition md5_words :: "nat list \<Rightarrow> 32 word list" where
  "md5_words block = map (\<lambda>j. word_of_le (take 4 (drop (4 * j) block))) [0 ..< 16]"

definition md5_K :: "32 word list" where
  "md5_K =
    [3614090360, 3905402710, 606105819, 3250441966, 4118548399, 1200080426, 2821735955,
     4249261313, 1770035416, 2336552879, 4294925233, 2304563134, 1804603682, 4254626195,
     2792965006, 1236535329, 4129170786, 3225465664, 643717713, 3921069994, 3593408605,
     38016083, 3634488961, 3889429448, 568446438, 3275163606, 4107603335, 1163531501,
     2850285829, 4243563512, 1735328473, 2368359562, 4294588738, 2272392833, 1839030562,
     4259657740, 2763975236, 1272893353, 4139469664, 3200236656, 681279174, 3936430074,
     3572445317, 76029189, 3654602809, 3873151461, 530742520, 3299628645, 4096336452,
     1126891415, 2878612391, 4237533241, 1700485571, 2399980690, 4293915773, 2240044497,
     1873313359, 4264355552, 2734768916, 1309151649, 4149444226, 3174756917, 718787259,
     3951481745]"

definition md5_S :: "nat list" where
  "md5_S =
    [7, 12, 17, 22, 7, 12, 17, 22, 7, 12, 17, 22, 7, 12, 17, 22,
     5, 9, 14, 20, 5, 9, 14, 20, 5, 9, 14, 20, 5, 9, 14, 20,
     4, 11, 16, 23, 4, 11, 16, 23, 4, 11, 16, 23, 4, 11, 16, 23,
     6, 10, 15, 21, 6, 10, 15, 21, 6, 10, 15, 21, 6, 10, 15, 21]"

definition md5_step :: "32 word list \<Rightarrow> md5_state \<Rightarrow> nat \<Rightarrow> md5_state" where
  "md5_step m st i =
     (case st of (a, b, c, d) \<Rightarrow>
        let (f, g) =
              (if i < 16 then ((b AND c) OR (NOT b AND d), i)
               else if i < 32 then ((d AND b) OR (NOT d AND c), (5 * i + 1) mod 16)
               else if i < 48 then (b XOR c XOR d, (3 * i + 5) mod 16)
               else (c XOR (b OR NOT d), (7 * i) mod 16));
            f' = f + a + md5_K ! i + m ! g
        in (d, b + word_rotl (md5_S ! i) f', b, c))"

definition md5_block :: "md5_state \<Rightarrow> nat list \<Rightarrow> md5_state" where
  "md5_block st block =
     (case st of (a0, b0, c0, d0) \<Rightarrow>
        (case foldl (md5_step (md5_words block)) st [0 ..< 64] of
           (a, b, c, d) \<Rightarrow> (a0 + a, b0 + b, c0 + c, d0 + d)))"

definition md5 :: "nat list \<Rightarrow> md5_state" where
  "md5 bs = foldl md5_block (1732584193, 4023233417, 2562383102, 271733878) (md5_blocks (md5_pad bs))"

text \<open>\<^verbatim>\<open>.hexdigest()\<close>: the four words as little-endian bytes, two lower-case hex digits each.\<close>

definition hex_digit :: "nat \<Rightarrow> nat" where
  "hex_digit k = (if k < 10 then 48 + k else 87 + k)"

definition hexdigest :: "md5_state \<Rightarrow> pystr" where
  "hexdigest st =
     (case st of (a, b, c, d) \<Rightarrow>
        concat (map (\<lambda>byte. [hex_digit (byte div 16), hex_digit (byte mod 16)])
          (concat (map (\<lambda>w. le_bytes 4 (unat w)) [a, b, c, d]))))"

definition md5_hex :: "pystr \<Rightarrow> error + pystr" where
  "md5_hex s = (case encode s of None \<Rightarrow> Inl UnicodeEncodeError | Some bs \<Rightarrow> Inr (hexdigest (md5 bs)))"

definition generate_chunk_id :: "pystr \<Rightarrow> pystr \<Rightarrow> int \<Rightarrow> error + pystr" where
  "generate_chunk_id state file_name chunk_index = md5_hex (unique_string state file_name chunk_index)"

definition pdf_chunk_id :: "pystr \<Rightarrow> int \<Rightarrow> error + pystr" where
  "pdf_chunk_id file_name chunk_idx = md5_hex (pdf_unique_string file_name chunk_idx)"

section \<open>HTML extraction\<close>

text \<open>
  \<^verbatim>\<open>extract_text_from_html\<close> reads the file and hands it to BeautifulSoup. What the
  parser delivers is an input of the model: the visible text of the document once the
  \<^verbatim>\<open>script\<close>, \<^verbatim>\<open>style\<close>, \<^verbatim>\<open>meta\<close> and \<^verbatim>\<open>link\<close> elements are removed
  (\<^verbatim>\<open>soup.get_text(separator='\n', strip=True)\<close>), and the strings inside the first
  \<^verbatim>\<open>title\<close> element, if there is one (\<^verbatim>\<open>soup.find('title')\<close>). A file that cannot be read
  or parsed is \<open>None\<close>: the \<^verbatim>\<open>except\<close> branch then returns \<^verbatim>\<open>None\<close>.
\<close>

record html_doc =
  visible_text :: pystr
  title_strings :: "pystr list option"

record html_file =
  hf_name :: pystr
  hf_stem :: pystr
  hf_path :: pystr
  hf_parsed :: "html_doc option"

record extraction =
  e_text :: pystr
  e_title :: pystr
  e_file_path :: pystr
  e_file_name :: pystr

text \<open>\<^verbatim>\<open>text.split('\n')\<close> and \<^verbatim>\<open>'\n'.join(lines)\<close>.\<close>

fun split_on :: "nat \<Rightarrow> pystr \<Rightarrow> pystr list" where
  "split_on d [] = [[]]"
| "split_on d (c # cs) =
     (if c = d then [] # split_on d cs
      else (case split_on d cs of [] \<Rightarrow> [[c]] | p # ps \<Rightarrow> (c # p) # ps))"

fun join :: "pystr \<Rightarrow> pystr list \<Rightarrow> pystr" where
  "join sep [] = []"
| "join sep [l] = l"
| "join sep (l # ls) = l @ sep @ join sep ls"

text \<open>
  \<^verbatim>\<open>title.get_text(strip=True)\<close>: every string of the element is stripped, the empty ones
  are left out, and the rest are joined with the empty separator.
\<close>

definition get_text_strip :: "pystr list \<Rightarrow> pystr" where
  "get_text_strip strings = concat (filter (\<lambda>s. s \<noteq> []) (map strip strings))"

text \<open>
  \<^verbatim>\<open>if title:\<close> tests the element that \<^verbatim>\<open>find\<close> returned. A BeautifulSoup element is
  true whatever it contains, so the test separates a document with a \<^verbatim>\<open>title\<close> element
  from one without.
\<close>

definition extract_text_from_html :: "html_file \<Rightarrow> extraction option" where
  "extract_text_from_html html_path =
     (case hf_parsed html_path of
        None \<Rightarrow> None
      | Some soup \<Rightarrow>
          let lines = filter (\<lambda>line. line \<noteq> []) (map strip (split_on 10 (visible_text soup)));
              text = join [10] lines;
              case_title = (case title_strings soup of
                              Some title \<Rightarrow> get_text_strip title
                            | None \<Rightarrow> hf_stem html_path)
          in Some \<lparr>e_text = text, e_title = case_title,
                   e_file_path = hf_path html_path, e_file_name = hf_name html_path\<rparr>)"

section \<open>The batch loader\<close>

text \<open>
  \<^verbatim>\<open>collection.add\<close> belongs to the vector store. It is a parameter \<open>add\<close> of the model:
  given the collection and the three lists of a call it either returns or raises, and
  leaves a collection behind in both cases.
\<close>

datatype 'c add_result = Added 'c | Raised 'c

type_synonym 'm add_call = "pystr list \<times> 'm list \<times> pystr list"

text \<open>
  The local variables of \<^verbatim>\<open>process_state_folder\<close> and \<^verbatim>\<open>process_pdf_folder\<close>, the
  collection, and two logs the source does not keep: the calls of \<^verbatim>\<open>collection.add\<close> in
  order, and those among them that raised (each prints an error).
\<close>

record ('m, 'c) run =
  documents :: "pystr list"
  metadatas :: "'m list"
  ids :: "pystr list"
  total_chunks :: nat
  files_processed :: nat
  files_skipped :: nat
  collection :: 'c
  calls :: "'m add_call list"
  failed :: "'m add_call list"

definition start_run :: "'c \<Rightarrow> ('m, 'c) run" where
  "start_run coll =
     \<lparr>documents = [], metadatas = [], ids = [], total_chunks = 0, files_processed = 0,
      files_skipped = 0, collection = coll, calls = [], failed = []\<rparr>"

text \<open>
  The \<^verbatim>\<open>try\<close> block inside the chunk loop: both branches empty the three lists.
\<close>

definition flush :: "('c \<Rightarrow> 'm add_call \<Rightarrow> 'c add_result) \<Rightarrow> ('m, 'c) run \<Rightarrow> ('m, 'c) run" where
  "flush add st =
     (let call = (documents st, metadatas st, ids st)
      in case add (collection st) call of
           Added coll \<Rightarrow>
             st\<lparr>documents := [], metadatas := [], ids := [], collection := coll,
                calls := calls st @ [call]\<rparr>
         | Raised coll \<Rightarrow>
             st\<lparr>documents := [], metadatas := [], ids := [], collection := coll,
                calls := calls st @ [call], failed := failed st @ [call]\<rparr>)"

text \<open>The three \<^verbatim>\<open>append\<close>s, the counter, and the test \<^verbatim>\<open>len(documents) >= batch_size\<close>.\<close>

definition add_record ::
  "('c \<Rightarrow> 'm add_call \<Rightarrow> 'c add_result) \<Rightarrow> int \<Rightarrow> ('m, 'c) run \<Rightarrow> pystr \<Rightarrow> 'm \<Rightarrow> pystr \<Rightarrow> ('m, 'c) run"
where
  "add_record add batch_size st chunk metadata chunk_id =
     (let st' = st\<lparr>documents := documents st @ [chunk], metadatas := metadatas st @ [metadata],
                    ids := ids st @ [chunk_id], total_chunks := total_chunks st + 1\<rparr>
      in if int (length (documents st')) \<ge> batch_size then flush add st' else st')"

text \<open>
  \<^verbatim>\<open>for chunk_idx, chunk in enumerate(chunks)\<close>. \<open>mk\<close> computes the id and the metadata of
  a chunk; computing the id can raise, and the exception leaves the loop and the function
  with the state reached so far.
\<close>

fun records_loop ::
  "('c \<Rightarrow> 'm add_call \<Rightarrow> 'c add_result) \<Rightarrow> int \<Rightarrow> (nat \<Rightarrow> error + 'm \<times> pystr) \<Rightarrow>
   (nat \<times> pystr) list \<Rightarrow> ('m, 'c) run \<Rightarrow> error \<times> ('m, 'c) run + ('m, 'c) run"
where
  "records_loop add batch_size mk [] st = Inr st"
| "records_loop add batch_size mk ((chunk_idx, chunk) # rest) st =
     (case mk chunk_idx of
        Inl e \<Rightarrow> Inl (e, st)
      | Inr (metadata, chunk_id) \<Rightarrow>
          records_loop add batch_size mk rest (add_record add batch_size st chunk metadata chunk_id))"

text \<open>
  The loop over the files. A step that does not return (\<open>None\<close>) or raises ends the run.
\<close>

fun files_loop ::
  "('f \<Rightarrow> ('m, 'c) run \<Rightarrow> (error \<times> ('m, 'c) run + ('m, 'c) run) option) \<Rightarrow> 'f list \<Rightarrow>
   ('m, 'c) run \<Rightarrow> (error \<times> ('m, 'c) run + ('m, 'c) run) option"
where
  "files_loop step [] st = Some (Inr st)"
| "files_loop step (f # fs) st =
     (case step f st of
        None \<Rightarrow> None
      | Some (Inl err) \<Rightarrow> Some (Inl err)
      | Some (Inr st') \<Rightarrow> files_loop step fs st')"

text \<open>\<^verbatim>\<open>if documents:\<close> after the loop; here the lists are not emptied.\<close>

definition final_flush :: "('c \<Rightarrow> 'm add_call \<Rightarrow> 'c add_result) \<Rightarrow> ('m, 'c) run \<Rightarrow> ('m, 'c) run" where
  "final_flush add st =
     (if documents st \<noteq> [] then
        (let call = (documents st, metadatas st, ids st)
         in case add (collection st) call of
              Added coll \<Rightarrow> st\<lparr>collection := coll, calls := calls st @ [call]\<rparr>
            | Raised coll \<Rightarrow>
                st\<lparr>collection := coll, calls := calls st @ [call], failed := failed st @ [call]\<rparr>)
      else st)"

definition finish ::
  "('c \<Rightarrow> 'm add_call \<Rightarrow> 'c add_result) \<Rightarrow> (error \<times> ('m, 'c) run + ('m, 'c) run) option \<Rightarrow>
   (error \<times> ('m, 'c) run + ('m, 'c) run) option"
where
  "finish add r =
     (case r of
        None \<Rightarrow> None
      | Some (Inl err) \<Rightarrow> Some (Inl err)
      | Some (Inr st) \<Rightarrow> Some (Inr (final_flush add st)))"

subsection \<open>HTML pipeline\<close>

record html_metadata =
  m_state :: pystr
  m_case_title :: pystr
  m_file_name :: pystr
  m_file_path :: pystr
  m_chunk_index :: nat
  m_total_chunks :: nat

definition html_record ::
  "pystr \<Rightarrow> html_file \<Rightarrow> extraction \<Rightarrow> nat \<Rightarrow> nat \<Rightarrow> error + html_metadata \<times> pystr"
where
  "html_record state_name html_file extracted n_chunks chunk_idx =
     (case generate_chunk_id state_name (hf_name html_file) (int chunk_idx) of
        Inl e \<Rightarrow> Inl e
      | Inr chunk_id \<Rightarrow>
          Inr (\<lparr>m_state = state_name, m_case_title = e_title extracted,
                m_file_name = e_file_name extracted, m_file_path = e_file_path extracted,
                m_chunk_index = chunk_idx, m_total_chunks = n_chunks\<rparr>, chunk_id))"

definition process_html_file ::
  "('c \<Rightarrow> html_metadata add_call \<Rightarrow> 'c add_result) \<Rightarrow> int \<Rightarrow> pystr \<Rightarrow> html_file \<Rightarrow>
   (html_metadata, 'c) run \<Rightarrow> (error \<times> (html_metadata, 'c) run + (html_metadata, 'c) run) option"
where
  "process_html_file add batch_size state_name html_file st =
     (case extract_text_from_html html_file of
        None \<Rightarrow> Some (Inr (st\<lparr>files_skipped := files_skipped st + 1\<rparr>))
      | Some extracted \<Rightarrow>
          if e_text extracted = [] then Some (Inr (st\<lparr>files_skipped := files_skipped st + 1\<rparr>))
          else
            (case chunk_text_html (e_text extracted) 1000 200 of
               None \<Rightarrow> None
             | Some chunks \<Rightarrow>
                 if chunks = [] then Some (Inr (st\<lparr>files_skipped := files_skipped st + 1\<rparr>))
                 else Some (records_loop add batch_size
                        (html_record state_name html_file extracted (length chunks))
                        (enumerate 0 chunks)
                        (st\<lparr>files_processed := files_processed st + 1\<rparr>))))"

text \<open>
  \<^verbatim>\<open>process_state_folder\<close>. The folder's name in lower case and the files that the two
  \<^verbatim>\<open>glob\<close> calls list are inputs.
\<close>

definition process_state_folder ::
  "('c \<Rightarrow> html_metadata add_call \<Rightarrow> 'c add_result) \<Rightarrow> int \<Rightarrow> pystr \<Rightarrow> html_file list \<Rightarrow> 'c \<Rightarrow>
   (error \<times> (html_metadata, 'c) run + (html_metadata, 'c) run) option"
where
  "process_state_folder add batch_size state_name html_files coll =
     (if html_files = [] then Some (Inr (start_run coll))
      else finish add
             (files_loop (process_html_file add batch_size state_name) html_files (start_run coll)))"

subsection \<open>PDF pipeline\<close>

text \<open>
  What \<^verbatim>\<open>extract_text_from_pdf\<close> returns for a file is an input: the cleaned text, or
  \<open>None\<close> when the file could not be read.
\<close>

record pdf_file =
  pf_name :: pystr
  pf_stem :: pystr
  pf_path :: pystr
  pf_text :: "pystr option"

record pdf_metadata =
  p_source :: pystr
  p_law_title :: pystr
  p_file_name :: pystr
  p_file_path :: pystr
  p_chunk_index :: nat
  p_total_chunks :: nat

definition replace_char :: "nat \<Rightarrow> nat \<Rightarrow> pystr \<Rightarrow> pystr" where
  "replace_char old new s = map (\<lambda>c. if c = old then new else c) s"

definition pdf_record :: "pdf_file \<Rightarrow> pystr \<Rightarrow> nat \<Rightarrow> nat \<Rightarrow> error + pdf_metadata \<times> pystr" where
  "pdf_record pdf_file law_title n_chunks chunk_idx =
     (case pdf_chunk_id (pf_name pdf_file) (int chunk_idx) of
        Inl e \<Rightarrow> Inl e
      | Inr chunk_id \<Rightarrow>
          Inr (\<lparr>p_source = lit ''federal_law'', p_law_title = law_title,
                p_file_name = pf_name pdf_file, p_file_path = pf_path pdf_file,
                p_chunk_index = chunk_idx, p_total_chunks = n_chunks\<rparr>, chunk_id))"

definition process_pdf_file ::
  "('c \<Rightarrow> pdf_metadata add_call \<Rightarrow> 'c add_result) \<Rightarrow> int \<Rightarrow> pdf_file \<Rightarrow>
   (pdf_metadata, 'c) run \<Rightarrow> (error \<times> (pdf_metadata, 'c) run + (pdf_metadata, 'c) run) option"
where
  "process_pdf_file add batch_size pdf_file st =
     (case pf_text pdf_file of
        None \<Rightarrow> Some (Inr (st\<lparr>files_skipped := files_skipped st + 1\<rparr>))
      | Some text \<Rightarrow>
          if text = [] \<or> length text < 100 then Some (Inr (st\<lparr>files_skipped := files_skipped st + 1\<rparr>))
          else
            (case chunk_text_pdf text 1500 300 of
               None \<Rightarrow> None
             | Some chunks \<Rightarrow>
                 if chunks = [] then Some (Inr (st\<lparr>files_skipped := files_skipped st + 1\<rparr>))
                 else
                   let law_title = replace_char 45 32 (replace_char 95 32 (pf_stem pdf_file))
                   in Some (records_loop add batch_size
                        (pdf_record pdf_file law_title (length chunks))
                        (enumerate 0 chunks)
                        (st\<lparr>files_processed := files_processed st + 1\<rparr>))))"

text \<open>
  \<^verbatim>\<open>process_pdf_folder\<close>. Whether the folder exists and the files of the recursive
  \<^verbatim>\<open>glob\<close> are inputs; both early returns leave the collection untouched.
\<close>

definition process_pdf_folder ::
  "('c \<Rightarrow> pdf_metadata add_call \<Rightarrow> 'c add_result) \<Rightarrow> int \<Rightarrow> bool \<Rightarrow> pdf_file list \<Rightarrow> 'c \<Rightarrow>
   (error \<times> (pdf_metadata, 'c) run + (pdf_metadata, 'c) run) option"
where
  "process_pdf_folder add batch_size folder_exists pdf_files coll =
     (if \<not> folder_exists then Some (Inr (start_run coll))
      else if pdf_files = [] then Some (Inr (start_run coll))
      else finish add (files_loop (process_pdf_file add batch_size) pdf_files (start_run coll)))"

section \<open>Walking the state folders\<close>

text \<open>
  \<^verbatim>\<open>process_all_states\<close>. The entries of the root directory, with the HTML files of each
  subdirectory, are inputs; \<^verbatim>\<open>str.lower\<close> is the parameter \<open>lower\<close>.
\<close>

record dir_entry =
  d_name :: pystr
  d_is_dir :: bool
  d_html_files :: "html_file list"

definition startswith :: "pystr \<Rightarrow> pystr \<Rightarrow> bool" where
  "startswith s prefix \<longleftrightarrow> take (length prefix) s = prefix"

definition state_folders :: "dir_entry list \<Rightarrow> dir_entry list" where
  "state_folders entries =
     filter (\<lambda>f. d_is_dir f \<and> \<not> startswith (d_name f) (lit ''.'')
                 \<and> \<not> startswith (d_name f) (lit ''_'')
                 \<and> d_name f \<noteq> lit ''legal_cases_chroma_db'') entries"

text \<open>
  \<^verbatim>\<open>for state_folder in sorted(state_folders)\<close> with its \<^verbatim>\<open>try\<close>: an exception of
  \<^verbatim>\<open>process_state_folder\<close> is caught and the loop goes on with the collection as the
  folder left it. \<open>seen\<close> logs the names of the folders handed to
  \<^verbatim>\<open>process_state_folder\<close>, in order.
\<close>

fun folders_loop ::
  "(pystr \<Rightarrow> pystr) \<Rightarrow> ('c \<Rightarrow> html_metadata add_call \<Rightarrow> 'c add_result) \<Rightarrow> dir_entry list \<Rightarrow>
   'c \<Rightarrow> pystr list \<Rightarrow> (pystr list \<times> 'c) option"
where
  "folders_loop lower add [] coll seen = Some (seen, coll)"
| "folders_loop lower add (state_folder # rest) coll seen =
     (case process_state_folder add 50 (lower (d_name state_folder))
             (d_html_files state_folder) coll of
        None \<Rightarrow> None
      | Some (Inl (e, st)) \<Rightarrow>
          folders_loop lower add rest (collection st) (seen @ [d_name state_folder])
      | Some (Inr st) \<Rightarrow>
          folders_loop lower add rest (collection st) (seen @ [d_name state_folder]))"

definition process_all_states ::
  "(pystr \<Rightarrow> pystr) \<Rightarrow> ('c \<Rightarrow> html_metadata add_call \<Rightarrow> 'c add_result) \<Rightarrow> dir_entry list \<Rightarrow>
   'c \<Rightarrow> (pystr list \<times> 'c) option"
where
  "process_all_states lower add entries coll =
     (let folders = state_folders entries
      in if folders = [] then Some ([], coll)
         else folders_loop lower add (sort_key d_name folders) coll [])"

section \<open>Notions for the claims about the loader\<close>



text \<open>
  A store that accepts every call, and a run seen without its collection and without the
  log of failures.
\<close>

definition add_ok :: "unit \<Rightarrow> 'm add_call \<Rightarrow> unit add_result" where
  "add_ok coll call = Added ()"

definition view :: "('m, 'c) run \<Rightarrow> ('m, unit) run" where
  "view st =
     \<lparr>documents = documents st, metadatas = metadatas st, ids = ids st,
      total_chunks = total_chunks st, files_processed = files_processed st,
      files_skipped = files_skipped st, collection = (), calls = calls st, failed = []\<rparr>"

definition view_result ::
  "(error \<times> ('m, 'c) run + ('m, 'c) run) option \<Rightarrow> (error \<times> ('m, unit) run + ('m, unit) run) option"
where
  "view_result r = map_option (map_sum (map_prod id view) view) r"



text \<open>
  A file for the title claim: \<open>case.html\<close>, whose \<^verbatim>\<open>title\<close> element holds one blank, as in
  \<^verbatim>\<open><html><head><title> </title></head><body>Some opinion text</body></html>\<close>.
\<close>

definition c3_file :: html_file where
  "c3_file =
     \<lparr>hf_name = lit ''case.html'', hf_stem = lit ''case'', hf_path = lit ''alabama/case.html'',
      hf_parsed = Some \<lparr>visible_text = lit ''Some opinion text'', title_strings = Some [lit '' '']\<rparr>\<rparr>"


section \<open>Facts about the string operations\<close>

lemma rfind_bounds:
  assumes "rfind s sub start stop \<noteq> - 1"
  shows "int (rfind_start (length s) start) \<le> rfind s sub start stop
       \<and> rfind s sub start stop + int (length sub) \<le> int (slice_index (length s) stop)"
proof -
  let ?lo = "rfind_start (length s) start" and ?hi = "slice_index (length s) stop"
  let ?m = "length sub"
  from assms have ge: "?lo + ?m \<le> ?hi"
    by (auto simp: rfind_def Let_def split: if_splits)
  from assms obtain i where
    f: "List.find (\<lambda>i. take ?m (drop i s) = sub) (rev [?lo ..< Suc (?hi - ?m)]) = Some i"
    and r: "rfind s sub start stop = int i"
    by (auto simp: rfind_def Let_def split: if_splits option.splits)
  from f obtain k where "k < length (rev [?lo ..< Suc (?hi - ?m)])"
    and "i = rev [?lo ..< Suc (?hi - ?m)] ! k"
    unfolding find_Some_iff by blast
  then have "i \<in> set (rev [?lo ..< Suc (?hi - ?m)])"
    using nth_mem by blast
  then have "?lo \<le> i" "i \<le> ?hi - ?m" by auto
  with ge r show ?thesis by auto
qed

lemma snap_to_bounds:
  "snap_to text lo hi e ps = e \<or>
   (int (rfind_start (length text) lo) \<le> snap_to text lo hi e ps
    \<and> snap_to text lo hi e ps \<le> int (slice_index (length text) hi))"
proof (induction ps)
  case Nil
  show ?case by simp
next
  case (Cons p ps)
  show ?case
  proof (cases "rfind text p lo hi = - 1")
    case True
    with Cons show ?thesis by simp
  next
    case False
    from rfind_bounds [OF False] False show ?thesis by (simp add: Let_def)
  qed
qed

lemma slice_index_nonneg: "0 \<le> i \<Longrightarrow> int (slice_index n i) = min (int n) i"
  by (cases "n \<le> nat i") (auto simp: slice_index_def)

lemma rfind_start_nonneg: "0 \<le> i \<Longrightarrow> int (rfind_start n i) = i"
  by (simp add: rfind_start_def)

lemma snap_forward_bounds:
  assumes "0 \<le> e" "0 \<le> w"
  shows "e \<le> snap_forward w text e \<and> snap_forward w text e \<le> e + w"
proof -
  define r where "r = snap_forward w text e"
  have "r = e \<or> (int (rfind_start (length text) e) \<le> r
      \<and> r \<le> int (slice_index (length text) (min (e + w) (int (length text)))))"
    unfolding r_def snap_forward_def by (rule snap_to_bounds)
  with assms show ?thesis
    unfolding r_def [symmetric] by (auto simp: rfind_start_nonneg slice_index_nonneg)
qed

lemma snap_pdf_bounds:
  assumes "200 \<le> e"
  shows "e - 200 \<le> snap_pdf text e \<and> snap_pdf text e \<le> e + 200"
proof -
  define r where "r = snap_pdf text e"
  have "r = e \<or> (int (rfind_start (length text) (e - 200)) \<le> r
      \<and> r \<le> int (slice_index (length text) (e + 200)))"
    unfolding r_def snap_pdf_def by (rule snap_to_bounds)
  with assms show ?thesis
    unfolding r_def [symmetric] by (auto simp: rfind_start_nonneg slice_index_nonneg)
qed

lemma length_strip_le: "length (strip s) \<le> length s"
proof -
  have "length (strip s) \<le> length (dropWhile is_space s)"
    unfolding strip_def using length_dropWhile_le [of is_space "rev (dropWhile is_space s)"] by simp
  also have "\<dots> \<le> length s" by (rule length_dropWhile_le)
  finally show ?thesis .
qed

lemma strip_ends:
  assumes "strip s \<noteq> []"
  shows "\<not> is_space (hd (strip s)) \<and> \<not> is_space (last (strip s))"
proof -
  define t where "t = dropWhile is_space s"
  define u where "u = dropWhile is_space (rev t)"
  have su: "strip s = rev u" by (simp add: strip_def t_def u_def)
  with assms have une: "u \<noteq> []" by simp
  then have hu: "\<not> is_space (hd u)" unfolding u_def by (rule hd_dropWhile)
  from une have tne: "t \<noteq> []" unfolding u_def by auto
  then have ht: "\<not> is_space (hd t)" unfolding t_def by (rule hd_dropWhile)
  obtain v where v: "rev t = v @ u"
    unfolding u_def using takeWhile_dropWhile_id [of is_space "rev t"] by metis
  with une have "last u = last (rev t)" by simp
  also have "\<dots> = hd t" using tne by (simp add: last_rev)
  finally have "last u = hd t" .
  with ht hu une show ?thesis by (simp add: su hd_rev last_rev)
qed

lemma dropWhile_id: "xs = [] \<or> \<not> P (hd xs) \<Longrightarrow> dropWhile P xs = xs"
  by (cases xs) auto

lemma strip_idem: "strip (strip s) = strip s"
proof (cases "strip s = []")
  case True
  then have "strip (strip s) = strip []" by simp
  also have "\<dots> = []" by (simp add: strip_def)
  finally show ?thesis using True by simp
next
  case False
  from strip_ends [OF False] False
  have a: "dropWhile is_space (strip s) = strip s" by (intro dropWhile_id) simp
  from strip_ends [OF False] False
  have b: "dropWhile is_space (rev (strip s)) = rev (strip s)"
    by (intro dropWhile_id) (simp add: hd_rev)
  show ?thesis
    unfolding strip_def [of "strip s"] a b by simp
qed

lemma length_slice_le:
  assumes "0 \<le> i" "i \<le> j"
  shows "int (length (slice xs i j)) \<le> j - i"
proof -
  have "length (slice xs i j) \<le> slice_index (length xs) j - slice_index (length xs) i"
    by (simp add: slice_def Let_def)
  moreover have "int (slice_index (length xs) j - slice_index (length xs) i) \<le> j - i"
    using assms slice_index_nonneg [of i "length xs"] slice_index_nonneg [of j "length xs"]
    by linarith
  ultimately show ?thesis by linarith
qed

section \<open>Facts about the chunking loop\<close>

text \<open>
  The boundary searches are used through one property: from a tentative end \<open>e \<ge> b\<close>
  the search moves the end back by at most \<open>b\<close> and forward by at most \<open>w\<close>
  (HTML: \<open>b = 0\<close>, \<open>w = 150\<close>; PDF: \<open>b = w = 200\<close>).
\<close>

lemma window_end_bounds:
  assumes snap: "\<And>e. b \<le> e \<Longrightarrow> e - b \<le> snap text e \<and> snap text e \<le> e + w"
    and "0 \<le> b" "0 \<le> w" "b \<le> chunk_size" "0 \<le> start"
  shows "start + chunk_size - b \<le> window_end snap text chunk_size start
       \<and> window_end snap text chunk_size start \<le> start + chunk_size + w"
proof (cases "start + chunk_size < int (length text)")
  case True
  from assms have "b \<le> start + chunk_size" by linarith
  from snap [OF this] True show ?thesis by (simp add: window_end_def)
next
  case False
  with assms show ?thesis by (simp add: window_end_def)
qed

lemma next_start_gt:
  assumes snap: "\<And>e. b \<le> e \<Longrightarrow> e - b \<le> snap text e \<and> snap text e \<le> e + w"
    and "0 \<le> b" "0 \<le> w" "0 \<le> overlap" "overlap + b < chunk_size"
    and "0 \<le> start" "start < int (length text)"
  shows "start < next_start text overlap (window_end snap text chunk_size start)"
proof -
  from assms have "b \<le> chunk_size" by linarith
  from window_end_bounds [of b snap "text" w chunk_size start, OF snap] assms this
  have "start + chunk_size - b \<le> window_end snap text chunk_size start" by blast
  with assms show ?thesis by (simp add: next_start_def)
qed

lemma kept_chunks_snoc:
  "kept_chunks min_len text (ws @ [w]) =
     kept_chunks min_len text ws @ (if keeps min_len text w then [window_chunk text w] else [])"
  by (simp add: kept_chunks_def kept_windows_def)

lemma chunk_run:
  assumes snap: "\<And>e. b \<le> e \<Longrightarrow> e - b \<le> snap text e \<and> snap text e \<le> e + w"
    and par: "0 \<le> b" "0 \<le> w" "0 \<le> overlap" "overlap + b < chunk_size"
    and "0 \<le> start"
  shows "\<exists>ws'. chunk_windows snap text chunk_size overlap start ws = Some (ws @ ws')
            \<and> chunk_loop snap min_len text chunk_size overlap start chunks
                = Some (chunks @ kept_chunks min_len text ws')
            \<and> windows_chain snap text chunk_size overlap start ws'"
  using \<open>0 \<le> start\<close>
proof (induction "nat (int (length text) - start)" arbitrary: start ws chunks rule: less_induct)
  case less
  show ?case
  proof (cases "start < int (length text)")
    case False
    then show ?thesis
      by (subst chunk_windows.simps, subst chunk_loop.simps) (simp add: kept_chunks_def kept_windows_def)
  next
    case True
    define e where "e = window_end snap text chunk_size start"
    define s' where "s' = next_start text overlap e"
    define chunk where "chunk = strip (slice text start e)"
    define chunks' where
      "chunks' = (if chunk \<noteq> [] \<and> length chunk > min_len then chunks @ [chunk] else chunks)"
    have gt: "start < s'"
      unfolding s'_def e_def
      using next_start_gt [of b snap "text" w overlap chunk_size start] snap par less.prems True
      by blast
    have le: "s' \<le> int (length text)"
      using par by (simp add: s'_def next_start_def)
    from gt le have m: "nat (int (length text) - s') < nat (int (length text) - start)" by linarith
    from gt less.prems have "0 \<le> s'" by linarith
    from less.hyps [OF m this, of "ws @ [(start, e)]" chunks']
    obtain ws' where
      w: "chunk_windows snap text chunk_size overlap s' (ws @ [(start, e)]) = Some ((ws @ [(start, e)]) @ ws')"
      and c: "chunk_loop snap min_len text chunk_size overlap s' chunks'
                = Some (chunks' @ kept_chunks min_len text ws')"
      and ch: "windows_chain snap text chunk_size overlap s' ws'"
      by blast
    have "chunk_windows snap text chunk_size overlap start ws
            = chunk_windows snap text chunk_size overlap s' (ws @ [(start, e)])"
      using True by (subst chunk_windows.simps) (simp add: e_def s'_def Let_def)
    with w have w1:
      "chunk_windows snap text chunk_size overlap start ws = Some (ws @ ((start, e) # ws'))"
      by simp
    have "chunk_loop snap min_len text chunk_size overlap start chunks
            = chunk_loop snap min_len text chunk_size overlap s' chunks'"
      using True
      by (subst chunk_loop.simps) (simp add: e_def s'_def chunk_def chunks'_def Let_def)
    with c have c1: "chunk_loop snap min_len text chunk_size overlap start chunks
                = Some (chunks' @ kept_chunks min_len text ws')"
      by simp
    have k: "chunks' @ kept_chunks min_len text ws' = chunks @ kept_chunks min_len text ((start, e) # ws')"
      by (simp add: chunks'_def chunk_def kept_chunks_def kept_windows_def keeps_def window_chunk_def)
    have ch1: "windows_chain snap text chunk_size overlap start ((start, e) # ws')"
      using True ch by (simp add: e_def s'_def)
    from w1 c1 k ch1 show ?thesis by metis
  qed
qed

lemma chain_bounds:
  assumes snap: "\<And>e. b \<le> e \<Longrightarrow> e - b \<le> snap text e \<and> snap text e \<le> e + w"
    and par: "0 \<le> b" "0 \<le> w" "0 \<le> overlap" "overlap + b < chunk_size"
  shows "0 \<le> start \<Longrightarrow> windows_chain snap text chunk_size overlap start ws \<Longrightarrow> x \<in> set ws \<Longrightarrow>
         0 \<le> fst x \<and> fst x < int (length text) \<and> fst x < snd x \<and> snd x - fst x \<le> chunk_size + w"
proof (induction ws arbitrary: start)
  case Nil
  then show ?case by simp
next
  case (Cons a ws)
  from Cons.prems have a: "start < int (length text)" "fst a = start"
    "snd a = window_end snap text chunk_size start"
    and rest: "windows_chain snap text chunk_size overlap (next_start text overlap (snd a)) ws"
    by auto
  from par have "b \<le> chunk_size" by linarith
  from window_end_bounds [of b snap "text" w chunk_size start] snap par this Cons.prems(1)
  have wb: "start + chunk_size - b \<le> window_end snap text chunk_size start"
    "window_end snap text chunk_size start \<le> start + chunk_size + w" by blast+
  show ?case
  proof (cases "x = a")
    case True
    with a wb par Cons.prems(1) show ?thesis by simp
  next
    case False
    with Cons.prems have xin: "x \<in> set ws" by simp
    from next_start_gt [of b snap "text" w overlap chunk_size start] snap par Cons.prems(1) a(1)
    have "start < next_start text overlap (snd a)" unfolding a(3) by blast
    with Cons.prems(1) have "0 \<le> next_start text overlap (snd a)" by linarith
    from Cons.IH [OF this rest xin] show ?thesis .
  qed
qed

lemma chain_cover:
  assumes snap: "\<And>e. b \<le> e \<Longrightarrow> e - b \<le> snap text e \<and> snap text e \<le> e + w"
    and par: "0 \<le> b" "0 \<le> w" "0 \<le> overlap" "overlap + b < chunk_size"
  shows "0 \<le> start \<Longrightarrow> windows_chain snap text chunk_size overlap start ws \<Longrightarrow>
         start \<le> p \<Longrightarrow> p < int (length text) \<Longrightarrow> \<exists>x \<in> set ws. fst x \<le> p \<and> p < snd x"
proof (induction ws arbitrary: start)
  case Nil
  then show ?case by simp
next
  case (Cons a ws)
  from Cons.prems have a: "start < int (length text)" "fst a = start"
    "snd a = window_end snap text chunk_size start"
    and rest: "windows_chain snap text chunk_size overlap (next_start text overlap (snd a)) ws"
    by auto
  show ?case
  proof (cases "p < snd a")
    case True
    with a Cons.prems show ?thesis by auto
  next
    case False
    with Cons.prems have "snd a < int (length text)" by linarith
    with False par have le: "next_start text overlap (snd a) \<le> p" by (simp add: next_start_def)
    from next_start_gt [of b snap "text" w overlap chunk_size start] snap par Cons.prems(1) a(1)
    have "start < next_start text overlap (snd a)" unfolding a(3) by blast
    with Cons.prems(1) have "0 \<le> next_start text overlap (snd a)" by linarith
    from Cons.IH [OF this rest le Cons.prems(4)] show ?thesis by auto
  qed
qed

lemma chain_adjacent:
  "windows_chain snap text chunk_size overlap start ws \<Longrightarrow> Suc i < length ws \<Longrightarrow>
     snd (ws ! i) < int (length text) \<and> fst (ws ! Suc i) = snd (ws ! i) - overlap"
proof (induction ws arbitrary: start i)
  case Nil
  then show ?case by simp
next
  case (Cons a ws)
  from Cons.prems(1)
  have rest: "windows_chain snap text chunk_size overlap (next_start text overlap (snd a)) ws"
    by auto
  show ?case
  proof (cases i)
    case 0
    with Cons.prems(2) obtain c cs where ws: "ws = c # cs" by (cases ws) auto
    with rest have "next_start text overlap (snd a) < int (length text)"
      and "fst c = next_start text overlap (snd a)" by simp_all
    then show ?thesis using 0 ws by (auto simp: next_start_def split: if_splits)
  next
    case (Suc j)
    with Cons.prems(2) have "Suc j < length ws" by simp
    from Cons.IH [OF rest this] Suc show ?thesis by simp
  qed
qed

lemma chain_last:
  assumes "0 \<le> overlap"
  shows "windows_chain snap text chunk_size overlap start ws \<Longrightarrow> ws \<noteq> [] \<Longrightarrow>
         int (length text) \<le> snd (last ws)"
proof (induction ws arbitrary: start)
  case Nil
  then show ?case by simp
next
  case (Cons a ws)
  from Cons.prems(1)
  have rest: "windows_chain snap text chunk_size overlap (next_start text overlap (snd a)) ws"
    by auto
  show ?case
  proof (cases "ws = []")
    case True
    with rest assms show ?thesis by (auto simp: next_start_def split: if_splits)
  next
    case False
    from Cons.IH [OF rest False] False show ?thesis by simp
  qed
qed

lemma chain_first:
  "windows_chain snap text chunk_size overlap start ws \<Longrightarrow> start < int (length text) \<Longrightarrow>
     ws \<noteq> [] \<and> fst (hd ws) = start"
  by (cases ws) auto

lemma snap_html_ok: "0 \<le> e \<Longrightarrow> e - 0 \<le> snap_html text e \<and> snap_html text e \<le> e + 150"
  using snap_forward_bounds [of e 150 "text"] by (simp add: snap_html_def)

lemma chunk_text_html_run:
  assumes "0 \<le> overlap" "overlap < chunk_size"
  shows "\<exists>ws. chunk_windows snap_html text chunk_size overlap 0 [] = Some ws
           \<and> chunk_text_html text chunk_size overlap = Some (kept_chunks 50 text ws)
           \<and> windows_chain snap_html text chunk_size overlap 0 ws"
proof -
  from assms have par: "(0::int) \<le> 0" "(0::int) \<le> 150" "0 \<le> overlap" "overlap + 0 < chunk_size"
    by simp_all
  from chunk_run [of 0 snap_html "text" 150 overlap chunk_size 0 "[]" 50 "[]", OF snap_html_ok par]
  obtain ws where ws: "chunk_windows snap_html text chunk_size overlap 0 [] = Some ws"
    "chunk_loop snap_html 50 text chunk_size overlap 0 [] = Some (kept_chunks 50 text ws)"
    "windows_chain snap_html text chunk_size overlap 0 ws"
    by auto
  show ?thesis
  proof (cases "text = []")
    case True
    with ws(3) have "ws = []" by (cases ws) auto
    with ws True show ?thesis by (simp add: chunk_text_html_def kept_chunks_def kept_windows_def)
  next
    case False
    with ws show ?thesis by (simp add: chunk_text_html_def)
  qed
qed

lemma chunk_text_pdf_run:
  assumes "0 \<le> overlap" "overlap + 200 < chunk_size"
  shows "\<exists>ws. chunk_windows snap_pdf text chunk_size overlap 0 [] = Some ws
           \<and> chunk_text_pdf text chunk_size overlap = Some (kept_chunks 100 text ws)
           \<and> windows_chain snap_pdf text chunk_size overlap 0 ws"
proof -
  from assms have par: "(0::int) \<le> 200" "(0::int) \<le> 200" "0 \<le> overlap" "overlap + 200 < chunk_size"
    by simp_all
  from chunk_run [of 200 snap_pdf "text" 200 overlap chunk_size 0 "[]" 100 "[]", OF snap_pdf_bounds par]
  obtain ws where ws: "chunk_windows snap_pdf text chunk_size overlap 0 [] = Some ws"
    "chunk_loop snap_pdf 100 text chunk_size overlap 0 [] = Some (kept_chunks 100 text ws)"
    "windows_chain snap_pdf text chunk_size overlap 0 ws"
    by auto
  show ?thesis
  proof (cases "text = []")
    case True
    with ws(3) have "ws = []" by (cases ws) auto
    with ws True show ?thesis by (simp add: chunk_text_pdf_def kept_chunks_def kept_windows_def)
  next
    case False
    with ws show ?thesis by (simp add: chunk_text_pdf_def)
  qed
qed

lemma chunk_loop_min_length:
  assumes "chunk_loop snap min_len text chunk_size overlap start chunks = Some res"
    and "\<forall>c \<in> set chunks. min_len < length c \<and> strip c = c"
  shows "\<forall>c \<in> set res. min_len < length c \<and> strip c = c"
proof -
  have "(\<forall>c \<in> set chunks. min_len < length c \<and> strip c = c)
        \<longrightarrow> (\<forall>c \<in> set res. min_len < length c \<and> strip c = c)"
  proof (rule chunk_loop.raw_induct
      [where P = "\<lambda>snap min_len text chunk_size overlap start chunks res.
         (\<forall>c \<in> set chunks. min_len < length c \<and> strip c = c)
          \<longrightarrow> (\<forall>c \<in> set res. min_len < length c \<and> strip c = c)", OF _ assms(1)])
    fix f :: "(pystr \<Rightarrow> int \<Rightarrow> int) \<Rightarrow> nat \<Rightarrow> pystr \<Rightarrow> int \<Rightarrow> int \<Rightarrow> int \<Rightarrow> pystr list \<Rightarrow> pystr list option"
      and snap m t cs ov s chs r
    assume IH: "\<And>snap m t cs ov s chs y.
        f snap m t cs ov s chs = Some y \<Longrightarrow>
        (\<forall>c \<in> set chs. m < length c \<and> strip c = c)
          \<longrightarrow> (\<forall>c \<in> set y. m < length c \<and> strip c = c)"
    assume body: "(if s < int (length t)
      then let e = window_end snap t cs s;
               chunk = strip (slice t s e)
           in f snap m t cs ov (next_start t ov e)
               (if chunk \<noteq> [] \<and> m < length chunk then chs @ [chunk] else chs)
      else Some chs) = Some r"
    show "(\<forall>c \<in> set chs. m < length c \<and> strip c = c)
          \<longrightarrow> (\<forall>c \<in> set r. m < length c \<and> strip c = c)"
    proof (cases "s < int (length t)")
      case False
      with body show ?thesis by simp
    next
      case True
      define chunk where "chunk = strip (slice t s (window_end snap t cs s))"
      define chs' where "chs' = (if chunk \<noteq> [] \<and> m < length chunk then chs @ [chunk] else chs)"
      from body True
      have "f snap m t cs ov (next_start t ov (window_end snap t cs s)) chs' = Some r"
        by (auto simp: Let_def chunk_def chs'_def split: if_splits)
      from IH [OF this]
      have "(\<forall>c \<in> set chs'. m < length c \<and> strip c = c)
          \<longrightarrow> (\<forall>c \<in> set r. m < length c \<and> strip c = c)" .
      moreover have "strip chunk = chunk" by (simp add: chunk_def strip_idem)
      then have "(\<forall>c \<in> set chs. m < length c \<and> strip c = c)
          \<longrightarrow> (\<forall>c \<in> set chs'. m < length c \<and> strip c = c)"
        by (auto simp: chs'_def)
      ultimately show ?thesis by blast
    qed
  qed
  with assms(2) show ?thesis by blast
qed

lemma strip_letters: "\<not> is_space x \<Longrightarrow> strip (replicate n x) = replicate n x"
  by (simp add: strip_def)

lemma chunk_text_html_letters:
  "chunk_text_html (replicate 120 97) 1000 200 = Some [replicate 120 97]"
  by (simp add: chunk_text_html_def chunk_loop.simps window_end_def next_start_def slice_def
      slice_index_def strip_letters is_space_def Let_def)

lemma chunk_text_pdf_letters:
  "chunk_text_pdf (replicate 120 97) 1500 300 = Some [replicate 120 97]"
  by (simp add: chunk_text_pdf_def chunk_loop.simps window_end_def next_start_def slice_def
      slice_index_def strip_letters is_space_def Let_def)

lemma chunk_windows_html_letters:
  "chunk_windows snap_html (replicate 120 97) 1000 200 0 [] = Some [(0, 1000)]"
  by (simp add: chunk_windows.simps window_end_def next_start_def Let_def)

lemma rfind_absent:
  assumes "sub \<noteq> []" "hd sub \<notin> set s"
  shows "rfind s sub lo hi = - 1"
proof -
  have ne: "take (length sub) (drop i s) \<noteq> sub" for i
  proof
    assume eq: "take (length sub) (drop i s) = sub"
    with assms(1) have ne: "drop i s \<noteq> []" by auto
    then obtain x xs where d: "drop i s = x # xs" by (cases "drop i s") auto
    from assms(1) obtain y ys where sub: "sub = y # ys" by (cases sub) auto
    from eq d sub have "y = x" by simp
    moreover have "x \<in> set (drop i s)" by (simp add: d)
    then have "x \<in> set s" by (rule in_set_dropD)
    ultimately show False using assms(2) sub by simp
  qed
  have "List.find (\<lambda>i. take (length sub) (drop i s) = sub) xs = None" for xs
    unfolding find_None_iff using ne by blast
  then show ?thesis by (simp add: rfind_def Let_def)
qed


lemma snap_html_absent:
  assumes "46 \<notin> set text" "33 \<notin> set text" "63 \<notin> set text" "10 \<notin> set text"
  shows "snap_html text e = e"
proof -
  have "rfind text (lit ''. '') lo hi = - 1" "rfind text (lit ''! '') lo hi = - 1"
    "rfind text (lit ''? '') lo hi = - 1" "rfind text [10, 10] lo hi = - 1" for lo hi
    using assms by (simp_all add: rfind_absent lit_def)
  then show ?thesis by (simp add: snap_html_def snap_forward_def)
qed


lemma c4_length: "length c4_text = 3000"
  by (simp add: c4_text_def)

lemma c4_snap: "snap_html c4_text e = e"
  by (rule snap_html_absent) (simp_all add: c4_text_def)

lemma c4_w1: "window_chunk c4_text (0, 1000) = replicate 700 97"
  by (simp add: window_chunk_def slice_def slice_index_def c4_text_def strip_def is_space_def
      dropWhile_append)


lemma c4_w2: "window_chunk c4_text (800, 1800) = replicate 40 120"
  by (simp add: window_chunk_def slice_def slice_index_def c4_text_def strip_def is_space_def
      dropWhile_append)

lemma c4_w3: "window_chunk c4_text (1600, 2600) = replicate 600 98"
  by (simp add: window_chunk_def slice_def slice_index_def c4_text_def strip_def is_space_def
      dropWhile_append)

lemma c4_w4: "window_chunk c4_text (2400, 3400) = replicate 600 98"
  by (simp add: window_chunk_def slice_def slice_index_def c4_text_def strip_def is_space_def
      dropWhile_append)

lemma c4_windows:
  "chunk_windows snap_html c4_text 1000 200 0 [] =
     Some [(0, 1000), (800, 1800), (1600, 2600), (2400, 3400)]"
  by (simp add: chunk_windows.simps window_end_def next_start_def c4_length c4_snap Let_def)

lemma c4_kept:
  "kept_windows 50 c4_text [(0, 1000), (800, 1800), (1600, 2600), (2400, 3400)] =
     [(0, 1000), (1600, 2600), (2400, 3400)]"
  by (simp add: kept_windows_def keeps_def c4_w1 c4_w2 c4_w3 c4_w4)

lemma c4_chunks:
  "chunk_text_html c4_text 1000 200 = Some [replicate 700 97, replicate 600 98, replicate 600 98]"
proof -
  have ne: "c4_text \<noteq> []" using c4_length by auto
  have w: "strip (slice c4_text 0 1000) = replicate 700 97"
    "strip (slice c4_text 800 1800) = replicate 40 120"
    "strip (slice c4_text 1600 2600) = replicate 600 98"
    "strip (slice c4_text 2400 3400) = replicate 600 98"
    using c4_w1 c4_w2 c4_w3 c4_w4 by (simp_all add: window_chunk_def)
  show ?thesis
    by (simp add: chunk_text_html_def ne chunk_loop.simps window_end_def next_start_def
        c4_length c4_snap w Let_def)
qed

lemma c4_nth: "c4_text ! 1000 = 120"
  by (simp add: c4_text_def nth_append)

section \<open>Claims about the chunker\<close>

text \<open>
  Claim C5 (minimum length invariant). Whatever the text, the chunk size and the overlap,
  every chunk that \<^verbatim>\<open>chunk_text\<close> returns is already trimmed and is longer than the
  threshold of its pipeline (50 characters for HTML, 100 for PDF), hence not empty; and the
  calls the pipelines make (1000/200 and 1500/300) do return.
\<close>

theorem min_length_invariant:
  "(chunk_text_html text chunk_size overlap = Some chunks \<longrightarrow>
      (\<forall>c \<in> set chunks. 50 < length c \<and> strip c = c \<and> c \<noteq> []))
   \<and> (chunk_text_pdf text chunk_size' overlap' = Some chunks' \<longrightarrow>
      (\<forall>c \<in> set chunks'. 100 < length c \<and> strip c = c \<and> c \<noteq> []))
   \<and> (\<exists>r. chunk_text_html text 1000 200 = Some r)
   \<and> (\<exists>r. chunk_text_pdf text 1500 300 = Some r)"
proof -
  have html: "\<forall>c \<in> set chunks. 50 < length c \<and> strip c = c \<and> c \<noteq> []"
    if "chunk_text_html text chunk_size overlap = Some chunks"
  proof (cases "text = []")
    case True
    with that show ?thesis by (simp add: chunk_text_html_def)
  next
    case False
    with that have "chunk_loop snap_html 50 text chunk_size overlap 0 [] = Some chunks"
      by (simp add: chunk_text_html_def)
    from chunk_loop_min_length [OF this] show ?thesis by auto
  qed
  have pdf: "\<forall>c \<in> set chunks'. 100 < length c \<and> strip c = c \<and> c \<noteq> []"
    if "chunk_text_pdf text chunk_size' overlap' = Some chunks'"
  proof (cases "text = []")
    case True
    with that show ?thesis by (simp add: chunk_text_pdf_def)
  next
    case False
    with that have "chunk_loop snap_pdf 100 text chunk_size' overlap' 0 [] = Some chunks'"
      by (simp add: chunk_text_pdf_def)
    from chunk_loop_min_length [OF this] show ?thesis by auto
  qed
  have "\<exists>r. chunk_text_html text 1000 200 = Some r"
    using chunk_text_html_run [of 200 1000 "text"] by auto
  moreover have "\<exists>r. chunk_text_pdf text 1500 300 = Some r"
    using chunk_text_pdf_run [of 300 1500 "text"] by auto
  ultimately show ?thesis using html pdf by blast
qed

theorem min_length_invariant_witness:
  "chunk_text_html (replicate 120 97) 1000 200 = Some [replicate 120 97]
   \<and> chunk_text_pdf (replicate 120 97) 1500 300 = Some [replicate 120 97]
   \<and> 100 < length (replicate 120 (97::nat))
   \<and> strip (replicate 120 97) = replicate 120 97"
  using min_length_invariant [of "replicate 120 97" 1000 200 "[replicate 120 97]" 1500 300
      "[replicate 120 97]"]
    chunk_text_html_letters chunk_text_pdf_letters
  by simp

text \<open>
  Claim C6 (termination). With the parameters of the pipelines, \<^verbatim>\<open>chunk_text\<close> returns
  for every text (1000/200 for HTML, 1500/300 for PDF), and from every cursor position a
  pass can start at the next cursor is strictly greater, whether or not the end of the
  window was moved to a delimiter.
\<close>

theorem chunk_text_terminates:
  "(\<exists>chunks. chunk_text_html text 1000 200 = Some chunks)
   \<and> (\<exists>chunks. chunk_text_pdf text 1500 300 = Some chunks)
   \<and> (\<forall>start. 0 \<le> start \<and> start < int (length text) \<longrightarrow>
         start < next_start text 200 (window_end snap_html text 1000 start))
   \<and> (\<forall>start. 0 \<le> start \<and> start < int (length text) \<longrightarrow>
         start < next_start text 300 (window_end snap_pdf text 1500 start))"
proof -
  have "\<exists>r. chunk_text_html text 1000 200 = Some r"
    using chunk_text_html_run [of 200 1000 "text"] by auto
  moreover have "\<exists>r. chunk_text_pdf text 1500 300 = Some r"
    using chunk_text_pdf_run [of 300 1500 "text"] by auto
  moreover have "start < next_start text 200 (window_end snap_html text 1000 start)"
    if "0 \<le> start" "start < int (length text)" for start
    using next_start_gt [of 0 snap_html "text" 150 200 1000 start, OF snap_html_ok] that by simp
  moreover have "start < next_start text 300 (window_end snap_pdf text 1500 start)"
    if "0 \<le> start" "start < int (length text)" for start
    using next_start_gt [of 200 snap_pdf "text" 200 300 1500 start, OF snap_pdf_bounds] that by simp
  ultimately show ?thesis by blast
qed

theorem chunk_text_terminates_witness:
  "chunk_text_html (replicate 120 97) 1000 200 = Some [replicate 120 97]
   \<and> chunk_text_pdf (replicate 120 97) 1500 300 = Some [replicate 120 97]
   \<and> 0 < next_start (replicate 120 97) 200 (window_end snap_html (replicate 120 97) 1000 0)
   \<and> 0 < next_start (replicate 120 97) 300 (window_end snap_pdf (replicate 120 97) 1500 0)"
  using chunk_text_terminates [of "replicate 120 97"]
    chunk_text_html_letters chunk_text_pdf_letters
  by simp

text \<open>
  Claim C9 (maximum length). When the overlap is not negative and leaves the cursor room
  to advance (\<open>overlap < chunk_size\<close> for HTML, \<open>overlap + 200 < chunk_size\<close> for PDF, as
  in the calls of the pipelines), \<^verbatim>\<open>chunk_text\<close> returns and every chunk has at most
  \<open>chunk_size + 150\<close> characters (HTML), respectively \<open>chunk_size + 200\<close> (PDF): the
  boundary search moves a tentative end forward by at most the width of its window, and
  trimming only shortens.
\<close>

theorem chunk_length_bound:
  "(0 \<le> overlap \<and> overlap < chunk_size \<longrightarrow>
      (\<exists>chunks. chunk_text_html text chunk_size overlap = Some chunks
         \<and> (\<forall>c \<in> set chunks. int (length c) \<le> chunk_size + 150)))
   \<and> (0 \<le> overlap' \<and> overlap' + 200 < chunk_size' \<longrightarrow>
      (\<exists>chunks. chunk_text_pdf text chunk_size' overlap' = Some chunks
         \<and> (\<forall>c \<in> set chunks. int (length c) \<le> chunk_size' + 200)))
   \<and> (\<forall>e. 0 \<le> e \<longrightarrow> snap_html text e \<le> e + 150)
   \<and> (\<forall>e. 0 \<le> e \<longrightarrow> snap_pdf text e \<le> e + 200)
   \<and> length (strip text) \<le> length text"
proof -
  have len: "int (length (window_chunk text x)) \<le> snd x - fst x"
    if "0 \<le> fst x" "fst x < snd x" for x
  proof -
    have "int (length (window_chunk text x)) \<le> int (length (slice text (fst x) (snd x)))"
      unfolding window_chunk_def using length_strip_le by simp
    also have "\<dots> \<le> snd x - fst x" using that length_slice_le [of "fst x" "snd x" "text"] by simp
    finally show ?thesis .
  qed
  have html: "\<exists>chunks. chunk_text_html text chunk_size overlap = Some chunks
         \<and> (\<forall>c \<in> set chunks. int (length c) \<le> chunk_size + 150)"
    if p: "0 \<le> overlap" "overlap < chunk_size"
  proof -
    from chunk_text_html_run [OF p, of "text"] obtain ws where
      r: "chunk_text_html text chunk_size overlap = Some (kept_chunks 50 text ws)"
      and ch: "windows_chain snap_html text chunk_size overlap 0 ws" by blast
    have "int (length c) \<le> chunk_size + 150" if "c \<in> set (kept_chunks 50 text ws)" for c
    proof -
      from that obtain x where x: "x \<in> set ws" "c = window_chunk text x"
        by (auto simp: kept_chunks_def kept_windows_def)
      from chain_bounds [of 0 snap_html "text" 150 overlap chunk_size 0 ws x, OF snap_html_ok] p ch x(1)
      have b: "0 \<le> fst x" "fst x < snd x" "snd x - fst x \<le> chunk_size + 150" by simp_all
      from len [OF b(1,2)] b(3) x(2) show ?thesis by simp
    qed
    with r show ?thesis by blast
  qed
  have pdf: "\<exists>chunks. chunk_text_pdf text chunk_size' overlap' = Some chunks
         \<and> (\<forall>c \<in> set chunks. int (length c) \<le> chunk_size' + 200)"
    if p: "0 \<le> overlap'" "overlap' + 200 < chunk_size'"
  proof -
    from chunk_text_pdf_run [OF p, of "text"] obtain ws where
      r: "chunk_text_pdf text chunk_size' overlap' = Some (kept_chunks 100 text ws)"
      and ch: "windows_chain snap_pdf text chunk_size' overlap' 0 ws" by blast
    have "int (length c) \<le> chunk_size' + 200" if "c \<in> set (kept_chunks 100 text ws)" for c
    proof -
      from that obtain x where x: "x \<in> set ws" "c = window_chunk text x"
        by (auto simp: kept_chunks_def kept_windows_def)
      from chain_bounds [of 200 snap_pdf "text" 200 overlap' chunk_size' 0 ws x, OF snap_pdf_bounds]
        p ch x(1)
      have b: "0 \<le> fst x" "fst x < snd x" "snd x - fst x \<le> chunk_size' + 200" by simp_all
      from len [OF b(1,2)] b(3) x(2) show ?thesis by simp
    qed
    with r show ?thesis by blast
  qed
  have sh: "snap_html text e \<le> e + 150" if "0 \<le> e" for e
    using snap_html_ok [OF that] by simp
  have sp: "snap_pdf text e \<le> e + 200" if "0 \<le> e" for e
  proof -
    define r where "r = snap_pdf text e"
    have "r = e \<or> (int (rfind_start (length text) (e - 200)) \<le> r
        \<and> r \<le> int (slice_index (length text) (e + 200)))"
      unfolding r_def snap_pdf_def by (rule snap_to_bounds)
    with that show ?thesis
      unfolding r_def [symmetric] by (auto simp: slice_index_nonneg)
  qed
  from html pdf sh sp length_strip_le [of "text"] show ?thesis by blast
qed

theorem chunk_length_bound_witness:
  "chunk_text_html (replicate 120 97) 1000 200 = Some [replicate 120 97]
   \<and> chunk_text_pdf (replicate 120 97) 1500 300 = Some [replicate 120 97]
   \<and> int (length (replicate 120 (97::nat))) \<le> 1000 + 150
   \<and> snap_html (replicate 120 97) 1000 \<le> 1000 + 150
   \<and> snap_pdf (replicate 120 97) 1500 \<le> 1500 + 200"
proof -
  note t = chunk_length_bound [of 200 1000 "replicate 120 97" 300 1500]
  from t have "\<forall>e. 0 \<le> e \<longrightarrow> snap_html (replicate 120 97) e \<le> e + 150" by blast
  from this [rule_format, of 1000] have h: "snap_html (replicate 120 97) 1000 \<le> 1000 + 150"
    by simp
  from t have "\<forall>e. 0 \<le> e \<longrightarrow> snap_pdf (replicate 120 97) e \<le> e + 200" by blast
  from this [rule_format, of 1500] have p: "snap_pdf (replicate 120 97) 1500 \<le> 1500 + 200"
    by simp
  from h p chunk_text_html_letters chunk_text_pdf_letters show ?thesis by simp
qed

text \<open>
  Claim C4 (coverage), as stated: the spans of the returned chunks leave no part of the
  text between the first and the last kept character uncovered. It fails where a window
  is discarded for being too short. In \<open>c4_text\<close> the pipeline's call cuts four windows; the
  second, \<open>[800, 1800)\<close>, trims to the 40 letters \<open>x\<close> and is dropped, so the returned
  chunks have the spans \<open>[0, 1000)\<close>, \<open>[1600, 2600)\<close> and \<open>[2400, 3400)\<close>: offset 1000
  holds a letter and lies in none of them, 600 characters before the next span begins.
\<close>

theorem coverage_counterexample:
  "chunk_windows snap_html c4_text 1000 200 0 [] =
     Some [(0, 1000), (800, 1800), (1600, 2600), (2400, 3400)]
   \<and> kept_windows 50 c4_text [(0, 1000), (800, 1800), (1600, 2600), (2400, 3400)] =
     [(0, 1000), (1600, 2600), (2400, 3400)]
   \<and> chunk_text_html c4_text 1000 200 =
     Some [replicate 700 97, replicate 600 98, replicate 600 98]
   \<and> c4_text ! 1000 = 120
   \<and> \<not> (\<exists>w \<in> set [(0, 1000), (1600, 2600), (2400, 3400 :: int)]. fst w \<le> (1000::int) \<and> 1000 < snd w)"
  using c4_windows c4_kept c4_chunks c4_nth by simp

text \<open>
  Claim C4, amended: the windows of all passes, kept or not, cover the text. When the
  overlap is not negative and leaves the cursor room to advance, \<^verbatim>\<open>chunk_text\<close> returns
  the trimmed windows that are longer than the threshold, in order; every offset of the
  text lies in some window, and each window after the first begins exactly \<open>overlap\<close>
  characters before the end of the one before it.
\<close>

theorem windows_cover_text:
  "(0 \<le> overlap \<and> overlap < chunk_size \<longrightarrow>
      (\<exists>ws. chunk_windows snap_html text chunk_size overlap 0 [] = Some ws
         \<and> chunk_text_html text chunk_size overlap = Some (kept_chunks 50 text ws)
         \<and> (\<forall>p. 0 \<le> p \<and> p < int (length text) \<longrightarrow> (\<exists>w \<in> set ws. fst w \<le> p \<and> p < snd w))
         \<and> (\<forall>i. Suc i < length ws \<longrightarrow> fst (ws ! Suc i) = snd (ws ! i) - overlap)))
   \<and> (0 \<le> overlap' \<and> overlap' + 200 < chunk_size' \<longrightarrow>
      (\<exists>ws. chunk_windows snap_pdf text chunk_size' overlap' 0 [] = Some ws
         \<and> chunk_text_pdf text chunk_size' overlap' = Some (kept_chunks 100 text ws)
         \<and> (\<forall>p. 0 \<le> p \<and> p < int (length text) \<longrightarrow> (\<exists>w \<in> set ws. fst w \<le> p \<and> p < snd w))
         \<and> (\<forall>i. Suc i < length ws \<longrightarrow> fst (ws ! Suc i) = snd (ws ! i) - overlap')))"
proof -
  have html: "\<exists>ws. chunk_windows snap_html text chunk_size overlap 0 [] = Some ws
         \<and> chunk_text_html text chunk_size overlap = Some (kept_chunks 50 text ws)
         \<and> (\<forall>p. 0 \<le> p \<and> p < int (length text) \<longrightarrow> (\<exists>w \<in> set ws. fst w \<le> p \<and> p < snd w))
         \<and> (\<forall>i. Suc i < length ws \<longrightarrow> fst (ws ! Suc i) = snd (ws ! i) - overlap)"
    if p: "0 \<le> overlap" "overlap < chunk_size"
  proof -
    from chunk_text_html_run [OF p, of "text"] obtain ws where
      w: "chunk_windows snap_html text chunk_size overlap 0 [] = Some ws"
      and r: "chunk_text_html text chunk_size overlap = Some (kept_chunks 50 text ws)"
      and ch: "windows_chain snap_html text chunk_size overlap 0 ws" by blast
    have "\<exists>w \<in> set ws. fst w \<le> q \<and> q < snd w" if "0 \<le> q" "q < int (length text)" for q
      using chain_cover [of 0 snap_html "text" 150 overlap chunk_size 0 ws q, OF snap_html_ok]
        p ch that by simp
    moreover have "fst (ws ! Suc i) = snd (ws ! i) - overlap" if "Suc i < length ws" for i
      using chain_adjacent [OF ch that] by simp
    ultimately show ?thesis using w r by blast
  qed
  have pdf: "\<exists>ws. chunk_windows snap_pdf text chunk_size' overlap' 0 [] = Some ws
         \<and> chunk_text_pdf text chunk_size' overlap' = Some (kept_chunks 100 text ws)
         \<and> (\<forall>p. 0 \<le> p \<and> p < int (length text) \<longrightarrow> (\<exists>w \<in> set ws. fst w \<le> p \<and> p < snd w))
         \<and> (\<forall>i. Suc i < length ws \<longrightarrow> fst (ws ! Suc i) = snd (ws ! i) - overlap')"
    if p: "0 \<le> overlap'" "overlap' + 200 < chunk_size'"
  proof -
    from chunk_text_pdf_run [OF p, of "text"] obtain ws where
      w: "chunk_windows snap_pdf text chunk_size' overlap' 0 [] = Some ws"
      and r: "chunk_text_pdf text chunk_size' overlap' = Some (kept_chunks 100 text ws)"
      and ch: "windows_chain snap_pdf text chunk_size' overlap' 0 ws" by blast
    have "\<exists>w \<in> set ws. fst w \<le> q \<and> q < snd w" if "0 \<le> q" "q < int (length text)" for q
      using chain_cover [of 200 snap_pdf "text" 200 overlap' chunk_size' 0 ws q, OF snap_pdf_bounds]
        p ch that by simp
    moreover have "fst (ws ! Suc i) = snd (ws ! i) - overlap'" if "Suc i < length ws" for i
      using chain_adjacent [OF ch that] by simp
    ultimately show ?thesis using w r by blast
  qed
  from html pdf show ?thesis by blast
qed

theorem windows_cover_text_witness:
  "chunk_windows snap_html c4_text 1000 200 0 [] =
     Some [(0, 1000), (800, 1800), (1600, 2600), (2400, 3400)]
   \<and> chunk_text_html c4_text 1000 200 =
     Some (kept_chunks 50 c4_text [(0, 1000), (800, 1800), (1600, 2600), (2400, 3400)])
   \<and> (\<exists>w \<in> set [(0, 1000), (800, 1800), (1600, 2600), (2400, 3400 :: int)]. fst w \<le> (1000::int) \<and> 1000 < snd w)
   \<and> fst ([(0, 1000), (800, 1800), (1600, 2600), (2400, 3400 :: int)] ! Suc 0) = (1000::int) - 200"
proof -
  from windows_cover_text [of 200 1000 c4_text 300 1500] obtain ws where
    w: "chunk_windows snap_html c4_text 1000 200 0 [] = Some ws"
    and r: "chunk_text_html c4_text 1000 200 = Some (kept_chunks 50 c4_text ws)"
    and c: "\<forall>p. 0 \<le> p \<and> p < int (length c4_text) \<longrightarrow> (\<exists>w \<in> set ws. fst w \<le> p \<and> p < snd w)"
    and a: "\<forall>i. Suc i < length ws \<longrightarrow> fst (ws ! Suc i) = snd (ws ! i) - 200"
    by auto
  from w c4_windows have ws: "ws = [(0, 1000), (800, 1800), (1600, 2600), (2400, 3400)]" by simp
  from c [rule_format, of 1000] have "\<exists>w \<in> set ws. fst w \<le> 1000 \<and> 1000 < snd w"
    by (simp add: c4_length)
  moreover from a [rule_format, of 0] have "fst (ws ! Suc 0) = snd (ws ! 0) - 200"
    by (simp add: ws)
  ultimately show ?thesis using w r unfolding ws by simp
qed

lemma c2_length: "length c2_text = 119"
  by (simp add: c2_text_def lit_def)

lemma c2_forward_20: "snap_forward 20 c2_text 30 = 30"
  by (simp add: snap_forward_def c2_text_def lit_def rfind_def rfind_start_def slice_index_def Let_def)

lemma c2_forward_150: "snap_html c2_text 30 = 30"
  by (simp add: snap_html_def snap_forward_def c2_text_def lit_def rfind_def rfind_start_def
      slice_index_def Let_def)

lemma c2_pdf: "snap_pdf c2_text 30 = 22"
  by (simp add: snap_pdf_def c2_text_def lit_def rfind_def rfind_start_def
      slice_index_def Let_def)

lemma c2_chunk: "window_chunk c2_text (0, 30) = lit ''Clause one ends here. Clause t''"
  by (simp add: window_chunk_def slice_def slice_index_def c2_text_def lit_def strip_def is_space_def)

lemma c2_prefix: "slice c2_text 0 22 = lit ''Clause one ends here. ''"
  by (simp add: slice_def slice_index_def c2_text_def lit_def)


text \<open>
  Claim C2 (boundary snapping example), as stated: with chunk size 30 and a forward window
  of 20 characters, the first window of the example text ends right after
  \<open>Clause one ends here. \<close>, at offset 22. It does not: the search starts at the
  tentative end, offset 30, and the only period followed by a space is at offset 20,
  behind it.
\<close>

theorem boundary_snap_counterexample:
  "slice c2_text 0 22 = lit ''Clause one ends here. ''
   \<and> window_end (snap_forward 20) c2_text 30 0 \<noteq> 22"
  using c2_prefix c2_forward_20 c2_length by (simp add: window_end_def)

text \<open>
  Claim C2, amended: with chunk size 30 and a forward window of 20 characters (or the 150
  of the source) no delimiter lies in the window, so the first window of the example text
  ends at the raw offset 30 and its trimmed text is \<open>Clause one ends here. Clause t\<close>,
  which is 30 characters long and therefore not kept by the HTML pipeline. The search of
  the PDF pipeline, which also looks behind the tentative end, does end the window at
  offset 22.
\<close>

theorem boundary_snap_example:
  "window_end (snap_forward 20) c2_text 30 0 = 30
   \<and> window_end snap_html c2_text 30 0 = 30
   \<and> window_chunk c2_text (0, 30) = lit ''Clause one ends here. Clause t''
   \<and> \<not> keeps 50 c2_text (0, 30)
   \<and> window_end snap_pdf c2_text 30 0 = 22"
proof -
  have "length (lit ''Clause one ends here. Clause t'') = 30" by (simp add: lit_def)
  then have "\<not> keeps 50 c2_text (0, 30)" by (simp add: keeps_def c2_chunk)
  with c2_forward_20 c2_forward_150 c2_pdf c2_chunk c2_length show ?thesis
    by (simp add: window_end_def)
qed

section \<open>Facts about chunk identifiers\<close>











section \<open>Claims about chunk identifiers\<close>




section \<open>Facts about the batch loader\<close>


lemma total_chunks_flush: "total_chunks (flush add st) = total_chunks st"
  by (simp add: flush_def Let_def split: add_result.splits)






















section \<open>Claims about the batch loader\<close>



lemma view_start: "view (start_run coll) = start_run ()"
  by (simp add: view_def start_run_def)

lemma view_flush: "view (flush add st) = flush add_ok (view st)"
  by (cases "add (collection st) (documents st, metadatas st, ids st)")
    (simp_all add: flush_def view_def add_ok_def Let_def)

lemma view_add_record:
  "view (add_record add batch_size st chunk metadata chunk_id)
     = add_record add_ok batch_size (view st) chunk metadata chunk_id"
  by (cases "add (collection st)
        (documents st @ [chunk], metadatas st @ [metadata], ids st @ [chunk_id])")
    (simp_all add: add_record_def flush_def view_def add_ok_def Let_def)

lemma view_final_flush: "view (final_flush add st) = final_flush add_ok (view st)"
  by (cases "add (collection st) (documents st, metadatas st, ids st)")
    (simp_all add: final_flush_def view_def add_ok_def Let_def)

lemma view_records_loop:
  "map_sum (map_prod id view) view (records_loop add batch_size mk xs st)
     = records_loop add_ok batch_size mk xs (view st)"
proof (induction xs arbitrary: st)
  case Nil
  show ?case by simp
next
  case (Cons x xs)
  obtain chunk_idx chunk where x: "x = (chunk_idx, chunk)" by (cases x)
  show ?case
  proof (cases "mk chunk_idx")
    case (Inl e)
    with x show ?thesis by simp
  next
    case (Inr r)
    obtain metadata chunk_id where r: "r = (metadata, chunk_id)" by (cases r)
    from Inr r x Cons.IH [of "add_record add batch_size st chunk metadata chunk_id"]
    show ?thesis by (simp add: view_add_record)
  qed
qed

lemma view_files_loop:
  assumes "\<And>f st. view_result (step f st) = step' f (view st)"
  shows "view_result (files_loop step fs st) = files_loop step' fs (view st)"
proof (induction fs arbitrary: st)
  case Nil
  show ?case by (simp add: view_result_def)
next
  case (Cons f fs)
  show ?case
  proof (cases "step f st")
    case None
    with assms [of f st] show ?thesis by (simp add: view_result_def)
  next
    case (Some r)
    show ?thesis
    proof (cases r)
      case (Inl err)
      with Some assms [of f st] have "step' f (view st) = Some (Inl (map_prod id view err))"
        by (simp add: view_result_def)
      with Some Inl show ?thesis by (simp add: view_result_def)
    next
      case (Inr st1)
      with Some assms [of f st] have "step' f (view st) = Some (Inr (view st1))"
        by (simp add: view_result_def)
      with Some Inr Cons.IH [of st1] show ?thesis by simp
    qed
  qed
qed

lemma view_counters:
  "view (st\<lparr>files_skipped := n\<rparr>) = (view st)\<lparr>files_skipped := n\<rparr>"
  "view (st\<lparr>files_processed := n\<rparr>) = (view st)\<lparr>files_processed := n\<rparr>"
  "files_skipped (view st) = files_skipped st" "files_processed (view st) = files_processed st"
  by (simp_all add: view_def)

lemma view_html_file:
  "view_result (process_html_file add batch_size state_name f st)
     = process_html_file add_ok batch_size state_name f (view st)"
  by (simp add: process_html_file_def view_result_def view_counters view_records_loop
      split: option.splits)

lemma view_pdf_file:
  "view_result (process_pdf_file add batch_size f st) = process_pdf_file add_ok batch_size f (view st)"
  by (simp add: process_pdf_file_def view_result_def view_counters view_records_loop Let_def
      split: option.splits)

lemma view_finish: "view_result (finish add r) = finish add_ok (view_result r)"
  by (cases r) (auto simp: finish_def view_result_def view_final_flush split: sum.splits)


lemma view_state_folder:
  "view_result (process_state_folder add batch_size state_name html_files coll)
     = process_state_folder add_ok batch_size state_name html_files ()"
proof (cases "html_files = []")
  case True
  then show ?thesis by (simp add: process_state_folder_def view_result_def view_start)
next
  case False
  have "view_result (files_loop (process_html_file add batch_size state_name) html_files (start_run coll))
      = files_loop (process_html_file add_ok batch_size state_name) html_files (view (start_run coll))"
    by (rule view_files_loop) (rule view_html_file)
  with False show ?thesis by (simp add: process_state_folder_def view_finish view_start)
qed

lemma view_pdf_folder:
  "view_result (process_pdf_folder add batch_size folder_exists pdf_files coll)
     = process_pdf_folder add_ok batch_size folder_exists pdf_files ()"
proof (cases "\<not> folder_exists \<or> pdf_files = []")
  case True
  then show ?thesis by (auto simp: process_pdf_folder_def view_result_def view_start)
next
  case False
  have "view_result (files_loop (process_pdf_file add batch_size) pdf_files (start_run coll))
      = files_loop (process_pdf_file add_ok batch_size) pdf_files (view (start_run coll))"
    by (rule view_files_loop) (rule view_pdf_file)
  with False show ?thesis by (simp add: process_pdf_folder_def view_finish view_start)
qed

lemma files_loop_returns:
  assumes "\<And>f st. \<exists>r. step f st = Some r"
  shows "\<exists>r. files_loop step fs st = Some r"
proof (induction fs arbitrary: st)
  case Nil
  show ?case by simp
next
  case (Cons f fs)
  from assms [of f st] obtain r where r: "step f st = Some r" by blast
  show ?case
  proof (cases r)
    case (Inl err)
    with r show ?thesis by simp
  next
    case (Inr st1)
    with r Cons.IH [of st1] show ?thesis by simp
  qed
qed

lemma process_html_file_returns: "\<exists>r. process_html_file add batch_size state_name f st = Some r"
proof -
  have c: "\<exists>chunks. chunk_text_html t 1000 200 = Some chunks" for t
    using chunk_text_html_run [of 200 1000 t] by auto
  show ?thesis
  proof (cases "extract_text_from_html f")
    case None
    then show ?thesis by (simp add: process_html_file_def)
  next
    case (Some extracted)
    from c [of "e_text extracted"] obtain chunks where
      "chunk_text_html (e_text extracted) 1000 200 = Some chunks" by blast
    with Some show ?thesis by (simp add: process_html_file_def)
  qed
qed

lemma process_pdf_file_returns: "\<exists>r. process_pdf_file add batch_size f st = Some r"
proof -
  have c: "\<exists>chunks. chunk_text_pdf t 1500 300 = Some chunks" for t
    using chunk_text_pdf_run [of 300 1500 t] by auto
  show ?thesis
  proof (cases "pf_text f")
    case None
    then show ?thesis by (simp add: process_pdf_file_def)
  next
    case (Some t)
    from c [of t] obtain chunks where "chunk_text_pdf t 1500 300 = Some chunks" by blast
    with Some show ?thesis by (simp add: process_pdf_file_def Let_def)
  qed
qed

lemma process_state_folder_returns:
  "\<exists>r. process_state_folder add batch_size state_name html_files coll = Some r"
proof -
  from files_loop_returns [of "process_html_file add batch_size state_name", OF process_html_file_returns]
  obtain r where "files_loop (process_html_file add batch_size state_name) html_files (start_run coll) = Some r"
    by blast
  then show ?thesis
    by (cases r) (simp_all add: process_state_folder_def finish_def)
qed

lemma process_pdf_folder_returns:
  "\<exists>r. process_pdf_folder add batch_size folder_exists pdf_files coll = Some r"
proof -
  from files_loop_returns [of "process_pdf_file add batch_size", OF process_pdf_file_returns]
  obtain r where "files_loop (process_pdf_file add batch_size) pdf_files (start_run coll) = Some r"
    by blast
  then show ?thesis
    by (cases r) (simp_all add: process_pdf_folder_def finish_def)
qed

text \<open>
  Claim C8 (failure isolation). Whether \<^verbatim>\<open>collection.add\<close> returns or raises, a flush
  inside the loop is one call with the three lists and leaves them empty, so a failed
  batch is neither sent again nor kept. The run always returns, and apart from the
  collection itself its outcome (normal end or an exception of the id computation, the
  counters, the lists, the sequence of calls) is that of the same run against a store
  that accepts every call: a failure of \<^verbatim>\<open>collection.add\<close> changes nothing in what is
  processed afterwards.
\<close>

theorem flush_failure_isolated:
  "documents (flush add st) = [] \<and> metadatas (flush add st) = [] \<and> ids (flush add st) = []
   \<and> calls (flush add st) = calls st @ [(documents st, metadatas st, ids st)]
   \<and> view_result (process_state_folder add batch_size state_name html_files coll)
       = process_state_folder add_ok batch_size state_name html_files ()
   \<and> view_result (process_pdf_folder add' batch_size folder_exists pdf_files coll')
       = process_pdf_folder add_ok batch_size folder_exists pdf_files ()
   \<and> (\<exists>r. process_state_folder add batch_size state_name html_files coll = Some r)
   \<and> (\<exists>r. process_pdf_folder add' batch_size folder_exists pdf_files coll' = Some r)"
proof -
  have "documents (flush add st) = [] \<and> metadatas (flush add st) = [] \<and> ids (flush add st) = []
      \<and> calls (flush add st) = calls st @ [(documents st, metadatas st, ids st)]"
    by (cases "add (collection st) (documents st, metadatas st, ids st)")
      (simp_all add: flush_def Let_def)
  then show ?thesis
    using view_state_folder [of add batch_size state_name html_files coll]
      view_pdf_folder [of add' batch_size folder_exists pdf_files coll']
      process_state_folder_returns [of add batch_size state_name html_files coll]
      process_pdf_folder_returns [of add' batch_size folder_exists pdf_files coll']
    by simp
qed

section \<open>Claims about the folder walk\<close>

lemma folders_loop_seen:
  "\<exists>coll'. folders_loop lower add fs coll seen = Some (seen @ map d_name fs, coll')"
proof (induction fs arbitrary: coll seen)
  case Nil
  show ?case by simp
next
  case (Cons f fs)
  from process_state_folder_returns [of add 50 "lower (d_name f)" "d_html_files f" coll]
  obtain r where r: "process_state_folder add 50 (lower (d_name f)) (d_html_files f) coll = Some r"
    by blast
  show ?case
  proof (cases r)
    case (Inl err)
    obtain e st where "err = (e, st)" by (cases err)
    with r Inl Cons.IH [of "collection st" "seen @ [d_name f]"] show ?thesis by simp
  next
    case (Inr st)
    with r Cons.IH [of "collection st" "seen @ [d_name f]"] show ?thesis by simp
  qed
qed

lemma process_all_states_seen:
  "\<exists>coll'. process_all_states lower add entries coll
            = Some (map d_name (sort_key d_name (state_folders entries)), coll')"
proof (cases "state_folders entries = []")
  case True
  then show ?thesis by (simp add: process_all_states_def)
next
  case False
  from folders_loop_seen [of lower add "sort_key d_name (state_folders entries)" coll "[]"] False
  show ?thesis by (simp add: process_all_states_def)
qed

text \<open>
  Claim C10 (excluded folders). \<^verbatim>\<open>process_all_states\<close> returns, and the folders it hands to
  \<^verbatim>\<open>process_state_folder\<close> are exactly the directories of the root whose names pass the
  filter: none of them has a name that starts with a dot or an underscore or is
  \<open>legal_cases_chroma_db\<close>, the directory in which the vector store keeps its data.
\<close>

theorem excluded_folders_never_processed:
  "\<exists>seen coll'.
     process_all_states lower add entries coll = Some (seen, coll')
     \<and> set seen = d_name ` set (state_folders entries)
     \<and> (\<forall>f \<in> set (state_folders entries). f \<in> set entries \<and> d_is_dir f)
     \<and> (\<forall>n \<in> set seen. \<not> startswith n (lit ''.'') \<and> \<not> startswith n (lit ''_'')
                       \<and> n \<noteq> lit ''legal_cases_chroma_db'')"
proof -
  from process_all_states_seen [of lower add entries coll] obtain coll' where
    r: "process_all_states lower add entries coll
          = Some (map d_name (sort_key d_name (state_folders entries)), coll')" by blast
  have s: "set (map d_name (sort_key d_name (state_folders entries))) = d_name ` set (state_folders entries)"
    by simp
  have "\<forall>f \<in> set (state_folders entries). f \<in> set entries \<and> d_is_dir f
        \<and> \<not> startswith (d_name f) (lit ''.'') \<and> \<not> startswith (d_name f) (lit ''_'')
        \<and> d_name f \<noteq> lit ''legal_cases_chroma_db''"
    by (simp add: state_folders_def)
  with r s show ?thesis by auto
qed

theorem excluded_folders_never_processed_witness:
  "process_all_states (\<lambda>s. s) add_ok
     [\<lparr>d_name = lit ''.git'', d_is_dir = True, d_html_files = []\<rparr>,
      \<lparr>d_name = lit ''legal_cases_chroma_db'', d_is_dir = True, d_html_files = []\<rparr>,
      \<lparr>d_name = lit ''texas'', d_is_dir = True, d_html_files = []\<rparr>,
      \<lparr>d_name = lit ''__pycache__'', d_is_dir = True, d_html_files = []\<rparr>,
      \<lparr>d_name = lit ''vectorize.py'', d_is_dir = False, d_html_files = []\<rparr>,
      \<lparr>d_name = lit ''alabama'', d_is_dir = True, d_html_files = []\<rparr>] ()
   = Some ([lit ''alabama'', lit ''texas''], ())"
proof -
  let ?entries = "[\<lparr>d_name = lit ''.git'', d_is_dir = True, d_html_files = []\<rparr>,
      \<lparr>d_name = lit ''legal_cases_chroma_db'', d_is_dir = True, d_html_files = []\<rparr>,
      \<lparr>d_name = lit ''texas'', d_is_dir = True, d_html_files = []\<rparr>,
      \<lparr>d_name = lit ''__pycache__'', d_is_dir = True, d_html_files = []\<rparr>,
      \<lparr>d_name = lit ''vectorize.py'', d_is_dir = False, d_html_files = []\<rparr>,
      \<lparr>d_name = lit ''alabama'', d_is_dir = True, d_html_files = []\<rparr>]"
  have f: "state_folders ?entries =
      [\<lparr>d_name = lit ''texas'', d_is_dir = True, d_html_files = []\<rparr>,
       \<lparr>d_name = lit ''alabama'', d_is_dir = True, d_html_files = []\<rparr>]"
    by (simp add: state_folders_def startswith_def lit_def)
  from excluded_folders_never_processed [of "\<lambda>s. s" add_ok ?entries "()"]
  obtain seen coll' where r: "process_all_states (\<lambda>s. s) add_ok ?entries () = Some (seen, coll')"
    by blast
  have g: "sort_key d_name
      [\<lparr>d_name = lit ''texas'', d_is_dir = True, d_html_files = []\<rparr>,
       \<lparr>d_name = lit ''alabama'', d_is_dir = True, d_html_files = []\<rparr>] =
      [\<lparr>d_name = lit ''alabama'', d_is_dir = True, d_html_files = []\<rparr>,
       \<lparr>d_name = lit ''texas'', d_is_dir = True, d_html_files = []\<rparr>]"
    by (simp add: lit_def)
  have "process_all_states (\<lambda>s. s) add_ok ?entries () = Some ([lit ''alabama'', lit ''texas''], ())"
    unfolding process_all_states_def f Let_def g
    by (simp add: process_state_folder_def start_run_def)
  with r show ?thesis by simp
qed

section \<open>Claims about the HTML extraction\<close>

text \<open>
  Claim C3 (title fallback) asks for a title that is never empty: the text of the title
  element when it is present and not empty, the filename stem otherwise. The source
  falls back to the stem only when there is no title element. For \<open>case.html\<close>, whose
  title element holds a blank, and for the same file with an empty title element, the
  returned title is the empty string and not \<open>case\<close>; without a title element it is
  \<open>case\<close>.
\<close>

theorem empty_title_not_replaced:
  "extract_text_from_html c3_file =
     Some \<lparr>e_text = lit ''Some opinion text'', e_title = [],
           e_file_path = lit ''alabama/case.html'', e_file_name = lit ''case.html''\<rparr>
   \<and> map_option e_title (extract_text_from_html
         (c3_file\<lparr>hf_parsed := Some \<lparr>visible_text = lit ''Some opinion text'',
                                      title_strings = Some []\<rparr>\<rparr>)) = Some []
   \<and> map_option e_title (extract_text_from_html
         (c3_file\<lparr>hf_parsed := Some \<lparr>visible_text = lit ''Some opinion text'',
                                      title_strings = None\<rparr>\<rparr>)) = Some (lit ''case'')"
  by (simp add: extract_text_from_html_def c3_file_def get_text_strip_def strip_def is_space_def
      lit_def Let_def)

end
